theory Spec2Isabelle
  imports Complex_Main
begin

section \<open>Data model (src/types.ts)\<close>

text \<open>
  The song structure handed to the renderers. JavaScript strings are modelled as
  \<^typ>\<open>string\<close>, one \<^typ>\<open>char\<close> per code unit below 256; JavaScript numbers are
  modelled as exact reals (times, durations, frequencies, volumes), and every place
  where the JavaScript value would leave the finite numbers (a division by zero) is
  written out as a result of type \<open>option\<close>.
\<close>

datatype SongSectionType = VERSE | CHORUS | BRIDGE | OUTRO

datatype SongGenre = rnb | pop | country | chinese

record SongSection =
  type :: SongSectionType
  lyrics :: "string list"
  chords :: "string list"

record Song =
  title :: string
  genre :: SongGenre
  artistStyle :: string
  tempo :: string
  key :: string
  description :: string
  coverArt :: "string option"
  sections :: "SongSection list"

section \<open>Strings: character classes, splitting, number parsing\<close>

definition is_digit :: "char \<Rightarrow> bool" where
  "is_digit c = (48 \<le> (of_char c :: nat) \<and> (of_char c :: nat) \<le> 57)"

definition digit_val :: "char \<Rightarrow> int" where
  "digit_val c = (of_char c :: int) - 48"

definition digits_value :: "string \<Rightarrow> int" where
  "digits_value s = foldl (\<lambda>a c. 10 * a + digit_val c) 0 s"

text \<open>The regular-expression class \<open>\s\<close>, restricted to code units below 256:
  TAB, LF, VT, FF, CR, space and the no-break space.\<close>

definition is_space :: "char \<Rightarrow> bool" where
  "is_space c = ((of_char c :: nat) \<in> {9, 10, 11, 12, 13, 32, 160})"

text \<open>The characters the regular-expression dot does not match (LF and CR).\<close>

definition is_line_terminator :: "char \<Rightarrow> bool" where
  "is_line_terminator c = ((of_char c :: nat) \<in> {10, 13})"

text \<open>\<open>q.startsWith(k)\<close>.\<close>

definition startsWith :: "string \<Rightarrow> string \<Rightarrow> bool" where
  "startsWith q k = (take (length k) q = k)"

text \<open>
  \<open>s.split(/[sep]+/)\<close>: the pieces of \<open>s\<close> between maximal runs of separator
  characters, empty first and last pieces included, exactly as \<open>String.prototype.split\<close>
  returns them. The second argument is the piece being read.
\<close>

function split_runs :: "(char \<Rightarrow> bool) \<Rightarrow> string \<Rightarrow> string \<Rightarrow> string list" where
  "split_runs sep w [] = [w]"
| "split_runs sep w (c # cs) =
     (if sep c then w # split_runs sep [] (dropWhile sep cs)
      else split_runs sep (w @ [c]) cs)"
  by pat_completeness auto
termination
  by (relation "measure (\<lambda>(sep, w, s). length s)")
     (auto simp: le_imp_less_Suc length_dropWhile_le)

text \<open>\<open>line.split(/[\s-]+/).filter(c => c.length > 0)\<close> (audioEngine.ts) and
  \<open>line.split(/\s+/).filter(x => x.length > 0)\<close> (the export engine).\<close>

definition chordsInLine :: "string \<Rightarrow> string list" where
  "chordsInLine chordLine =
     filter (\<lambda>c. length c > 0) (split_runs (\<lambda>c. is_space c \<or> c = CHR ''-'') [] chordLine)"

definition chordsInLine_p0 :: "string \<Rightarrow> string list" where
  "chordsInLine_p0 chordLine =
     filter (\<lambda>x. length x > 0) (split_runs is_space [] chordLine)"

section \<open>Chord resolver\<close>

text \<open>The note table, identical in both engines.\<close>

definition NOTES :: "(string \<times> real) list" where
  "NOTES =
    [(''Cb'', 246.94), (''C'', 261.63), (''C#'', 277.18), (''Db'', 277.18),
     (''D'', 293.66), (''D#'', 311.13), (''Eb'', 311.13),
     (''E'', 329.63), (''E#'', 349.23),
     (''F'', 349.23), (''F#'', 369.99), (''Gb'', 369.99),
     (''G'', 392.00), (''G#'', 415.30), (''Ab'', 415.30),
     (''A'', 440.00), (''A#'', 466.16), (''Bb'', 466.16),
     (''B'', 493.88), (''B#'', 523.25)]"

text \<open>The chord-quality table of audioEngine.ts, in the order of the object literal.\<close>

definition CHORD_SHAPES :: "(string \<times> nat list) list" where
  "CHORD_SHAPES =
    [(''maj'', [0, 4, 7]),
     (''min'', [0, 3, 7]),
     (''m'', [0, 3, 7]),
     (''dim'', [0, 3, 6]),
     (''aug'', [0, 4, 8]),
     (''7'', [0, 4, 7, 10]),
     (''maj7'', [0, 4, 7, 11]),
     (''m7'', [0, 3, 7, 10]),
     (''9'', [0, 4, 7, 10, 14]),
     (''maj9'', [0, 4, 7, 11, 14]),
     (''m9'', [0, 3, 7, 10, 14]),
     (''sus4'', [0, 5, 7]),
     (''sus2'', [0, 2, 7]),
     (''add9'', [0, 4, 7, 14])]"

text \<open>The chord-quality table of the export engine (no \<open>aug\<close>, \<open>maj9\<close>, \<open>m9\<close>).\<close>

definition CHORD_SHAPES_p0 :: "(string \<times> nat list) list" where
  "CHORD_SHAPES_p0 =
    [(''maj'', [0, 4, 7]), (''min'', [0, 3, 7]), (''m'', [0, 3, 7]), (''dim'', [0, 3, 6]),
     (''7'', [0, 4, 7, 10]), (''maj7'', [0, 4, 7, 11]), (''m7'', [0, 3, 7, 10]),
     (''9'', [0, 4, 7, 10, 14]), (''add9'', [0, 4, 7, 14]), (''sus4'', [0, 5, 7]),
     (''sus2'', [0, 2, 7])]"

text \<open>
  \<open>Object.keys\<close> lists the keys that are canonical array indices first, in ascending
  numeric order, and the other keys after them in the order of their creation. The
  entries are listed with their keys, so that \<open>CHORD_SHAPES[key]\<close> for a listed key
  is the second component.
\<close>

definition is_array_index :: "string \<Rightarrow> bool" where
  "is_array_index k =
     (k \<noteq> [] \<and> list_all is_digit k \<and> (k = ''0'' \<or> hd k \<noteq> CHR ''0'')
      \<and> digits_value k < 2 ^ 32 - 1)"

definition object_entries :: "(string \<times> 'v) list \<Rightarrow> (string \<times> 'v) list" where
  "object_entries tbl =
     sort_key (\<lambda>e. digits_value (fst e)) (filter (\<lambda>e. is_array_index (fst e)) tbl)
     @ filter (\<lambda>e. \<not> is_array_index (fst e)) tbl"

text \<open>\<open>keys.sort((a, b) => b.length - a.length)\<close>: a stable sort, longest key first.\<close>

definition sort_longest_first :: "(string \<times> 'v) list \<Rightarrow> (string \<times> 'v) list" where
  "sort_longest_first es = sort_key (\<lambda>e. - int (length (fst e))) es"

text \<open>
  The match of \<open>/^([A-G][#b]?)(.*)$/\<close>: the root and the rest, or \<open>None\<close> when the
  name does not start with a letter A to G or holds a line terminator, which the dot
  does not match.
\<close>

definition is_root_letter :: "char \<Rightarrow> bool" where
  "is_root_letter c = (c \<in> set ''ABCDEFG'')"

definition rootMatch :: "string \<Rightarrow> (string \<times> string) option" where
  "rootMatch chordName =
     (case chordName of
        [] \<Rightarrow> None
      | c # cs \<Rightarrow>
          if is_root_letter c \<and> \<not> list_ex is_line_terminator cs then
            (case cs of
               [] \<Rightarrow> Some ([c], [])
             | d # ds \<Rightarrow> if d = CHR ''#'' \<or> d = CHR ''b'' then Some ([c, d], ds)
                         else Some ([c], cs))
          else None)"

text \<open>
  The interval selection of \<open>getChordFrequencies\<close> in audioEngine.ts, from the
  quality suffix \<open>rootMatch[2]\<close>: the default \<open>maj\<close>, the first key (longest first)
  that the quality equals or starts with, and the final override for \<open>m\<close> and \<open>min\<close>.
\<close>

definition shape_of :: "(string \<times> nat list) list \<Rightarrow> string \<Rightarrow> nat list" where
  "shape_of tbl k = (case map_of tbl k of Some v \<Rightarrow> v | None \<Rightarrow> [])"

definition chordIntervals :: "string \<Rightarrow> nat list" where
  "chordIntervals rest =
     (let quality = (if rest = [] then ''maj'' else rest);
          intervals =
            (case find (\<lambda>e. quality = fst e \<or> startsWith quality (fst e))
                    (sort_longest_first (object_entries CHORD_SHAPES)) of
               Some e \<Rightarrow> snd e
             | None \<Rightarrow> shape_of CHORD_SHAPES ''maj'')
      in if quality = ''m'' \<or> quality = ''min'' then shape_of CHORD_SHAPES ''m''
         else intervals)"

definition chordIntervals_p0 :: "string \<Rightarrow> nat list" where
  "chordIntervals_p0 rest =
     (let quality = (if rest = [] then ''maj'' else rest)
      in case find (\<lambda>e. startsWith quality (fst e))
                (sort_longest_first (object_entries CHORD_SHAPES_p0)) of
           Some e \<Rightarrow> snd e
         | None \<Rightarrow> shape_of CHORD_SHAPES_p0 ''maj'')"

text \<open>\<open>baseFreq * Math.pow(2, semitones / 12)\<close>.\<close>

definition semitone_freq :: "real \<Rightarrow> nat \<Rightarrow> real" where
  "semitone_freq baseFreq semitones = baseFreq * 2 powr (real semitones / 12)"

definition getChordFrequencies :: "string \<Rightarrow> real list" where
  "getChordFrequencies chordName =
     (case rootMatch chordName of
        None \<Rightarrow> []
      | Some (rootNote, rest) \<Rightarrow>
          (case map_of NOTES rootNote of
             None \<Rightarrow> []
           | Some baseFreq \<Rightarrow> map (semitone_freq baseFreq) (chordIntervals rest)))"

definition getChordFrequencies_p0 :: "string \<Rightarrow> real list" where
  "getChordFrequencies_p0 chordName =
     (case rootMatch chordName of
        None \<Rightarrow> []
      | Some (rootNote, rest) \<Rightarrow>
          (case map_of NOTES rootNote of
             None \<Rightarrow> []
           | Some baseFreq \<Rightarrow> map (semitone_freq baseFreq) (chordIntervals_p0 rest)))"

section \<open>Tempo\<close>

text \<open>
  \<open>parseInt\<close> returns a JavaScript number, a double. The integers of magnitude below
  \<open>2^53\<close> are doubles; a digit run with a greater value is rounded to a double, in a
  way left in part to the implementation, or is \<open>Infinity\<close>. The model reads the exact
  value and says when it is one of the integers that the code's number holds exactly.
\<close>

definition safe_integer :: "int \<Rightarrow> bool" where
  "safe_integer n = (\<bar>n\<bar> < 9007199254740992)"

text \<open>
  audioEngine.ts: \<open>song.tempo.match(/(\d+)/)\<close> is the first maximal run of decimal
  digits anywhere in the string, and the BPM is \<open>parseInt\<close> of that run, or 100
  without a match. The result is \<open>None\<close> when the run's value is not a safe integer:
  the code's BPM is then a rounded number that the model does not give.
\<close>

definition tempoMatch :: "string \<Rightarrow> string option" where
  "tempoMatch t =
     (let r = dropWhile (\<lambda>c. \<not> is_digit c) t
      in if r = [] then None else Some (takeWhile is_digit r))"

definition bpm_of_tempo :: "string \<Rightarrow> int option" where
  "bpm_of_tempo t =
     (case tempoMatch t of
        Some ds \<Rightarrow> if safe_integer (digits_value ds) then Some (digits_value ds) else None
      | None \<Rightarrow> Some 100)"

text \<open>
  \<open>60 / bpm\<close>. For \<open>bpm = 0\<close> JavaScript computes \<open>Infinity\<close>, which is not a real
  number: the result is \<open>None\<close> there.
\<close>

definition secondsPerBeat :: "int \<Rightarrow> real option" where
  "secondsPerBeat bpm = (if bpm = 0 then None else Some (60 / real_of_int bpm))"

definition secondsPerBar :: "int \<Rightarrow> real option" where
  "secondsPerBar bpm = map_option (\<lambda>s. s * 4) (secondsPerBeat bpm)"

text \<open>
  The export engine: \<open>parseInt(song.tempo) || 90\<close>. \<open>parseInt\<close> skips leading white
  space, reads an optional sign, switches to radix 16 after a prefix \<open>0x\<close> or \<open>0X\<close>,
  and reads the longest run of digits of the radix. With no digit the result is
  \<open>NaN\<close>; a value that is a safe integer is the result as it is (\<open>Integer\<close>);
  any other value is rounded by the code (\<open>Rounded\<close>), to a number that the model
  does not give. \<open>NaN\<close> and zero are falsy, a rounded number is not: the BPM of the
  export engine is \<open>None\<close> when it is such a number.
\<close>

datatype parsed = NaN | Integer int | Rounded

definition is_hex_digit :: "char \<Rightarrow> bool" where
  "is_hex_digit c = (is_digit c \<or> c \<in> set ''abcdefABCDEF'')"

definition hex_val :: "char \<Rightarrow> int" where
  "hex_val c =
     (if is_digit c then digit_val c
      else if c \<in> set ''abcdef'' then (of_char c :: int) - 87
      else (of_char c :: int) - 55)"

definition hex_value :: "string \<Rightarrow> int" where
  "hex_value s = foldl (\<lambda>a c. 16 * a + hex_val c) 0 s"

definition parseInt :: "string \<Rightarrow> parsed" where
  "parseInt inputString =
     (let s1 = dropWhile is_space inputString;
          sign = (if take 1 s1 = ''-'' then - 1 else (1 :: int));
          s2 = (if take 1 s1 = ''-'' \<or> take 1 s1 = ''+'' then drop 1 s1 else s1);
          hex = (take 2 s2 = ''0x'' \<or> take 2 s2 = ''0X'');
          s3 = (if hex then drop 2 s2 else s2);
          z = takeWhile (if hex then is_hex_digit else is_digit) s3;
          mathInt = sign * (if hex then hex_value z else digits_value z)
      in if z = [] then NaN
         else if safe_integer mathInt then Integer mathInt else Rounded)"

definition bpm_p0 :: "string \<Rightarrow> int option" where
  "bpm_p0 t =
     (case parseInt t of
        NaN \<Rightarrow> Some 90
      | Integer n \<Rightarrow> Some (if n = 0 then 90 else n)
      | Rounded \<Rightarrow> None)"

text \<open>\<open>(60/bpm) * 4\<close> of the export engine, whose \<open>bpm\<close> is never zero.\<close>

definition barDur :: "int \<Rightarrow> real" where
  "barDur bpm = (60 / real_of_int bpm) * 4"

section \<open>Signal routing (setupMasterBus)\<close>

datatype AudioNode =
  MusicBus | LowShelf | HighShelf | MasterCompressor | MasterGain
  | ReverbNode | ReverbWet | Destination

text \<open>The \<open>connect\<close> calls of \<open>setupMasterBus\<close> (and of \<open>setupRouting\<close>), in order.\<close>

definition connections :: "(AudioNode \<times> AudioNode) list" where
  "connections =
     [(MusicBus, LowShelf), (LowShelf, HighShelf), (HighShelf, MasterCompressor),
      (ReverbNode, ReverbWet), (ReverbWet, MusicBus),
      (MasterCompressor, MasterGain), (MasterGain, Destination)]"

text \<open>A signal entering the graph at \<open>a\<close> passes through \<open>b\<close>.\<close>

definition passes_through :: "AudioNode \<Rightarrow> AudioNode \<Rightarrow> bool" where
  "passes_through a b = ((a, b) \<in> (set connections)\<^sup>*)"

section \<open>Synthesizer calls\<close>

datatype InstrumentType = synth | epiano | guitar | piano | guzheng | pad | bass | lead

text \<open>
  A render pass is modelled by the calls it makes to the voice synthesizers, in order,
  each with the arguments of the source (without the audio context): the time is the
  second argument of \<open>playNote\<close> and the first of the drum functions. The node graph
  inside one voice (oscillator layers, envelope, filter) is not modelled.
  \<^item> \<open>playKick time vol dest\<close>, which also triggers the sidechain duck at \<open>time\<close>
  \<^item> \<open>playSnare time vol dest\<close>
  \<^item> \<open>playHiHat time vol dest panVal open\<close>
  \<^item> \<open>playCrash time dest\<close>
  \<^item> \<open>playWoodblock time dest\<close>
  \<^item> \<open>playNote freq time duration config dest pan vol\<close>
  \<^item> \<open>vocalStart time dest\<close>: a vocal buffer source started at \<open>time\<close>, routed to \<open>dest\<close>
\<close>

datatype call =
    playKick real real AudioNode
  | playSnare real real AudioNode
  | playHiHat real real AudioNode real bool
  | playCrash real AudioNode
  | playWoodblock real AudioNode
  | playNote real real real InstrumentType AudioNode real real
  | vocalStart real AudioNode

fun call_time :: "call \<Rightarrow> real" where
  "call_time (playKick t v d) = t"
| "call_time (playSnare t v d) = t"
| "call_time (playHiHat t v d p opn) = t"
| "call_time (playCrash t d) = t"
| "call_time (playWoodblock t d) = t"
| "call_time (playNote f t dur cfg d p v) = t"
| "call_time (vocalStart t d) = t"

fun call_dest :: "call \<Rightarrow> AudioNode" where
  "call_dest (playKick t v d) = d"
| "call_dest (playSnare t v d) = d"
| "call_dest (playHiHat t v d p opn) = d"
| "call_dest (playCrash t d) = d"
| "call_dest (playWoodblock t d) = d"
| "call_dest (playNote f t dur cfg d p v) = d"
| "call_dest (vocalStart t d) = d"

fun is_kick :: "call \<Rightarrow> bool" where
  "is_kick (playKick t v d) = True" | "is_kick c = False"

fun is_snare :: "call \<Rightarrow> bool" where
  "is_snare (playSnare t v d) = True" | "is_snare c = False"

fun is_hihat :: "call \<Rightarrow> bool" where
  "is_hihat (playHiHat t v d p opn) = True" | "is_hihat c = False"

fun is_crash :: "call \<Rightarrow> bool" where
  "is_crash (playCrash t d) = True" | "is_crash c = False"

fun is_woodblock :: "call \<Rightarrow> bool" where
  "is_woodblock (playWoodblock t d) = True" | "is_woodblock c = False"

section \<open>Arrangement engine (audioEngine.ts)\<close>

text \<open>
  \<open>Math.random()\<close> is an injected source \<open>random\<close>: the \<open>k\<close>-th draw of the pass is
  \<open>random k\<close>, and every function that draws returns the number of draws made so far.
\<close>

definition volMult :: "SongSectionType \<Rightarrow> real" where
  "volMult sectionType =
     (if sectionType = CHORUS then 1.0 else (if sectionType = BRIDGE then 0.9 else 0.7))"

definition instConfig :: "SongGenre \<Rightarrow> InstrumentType" where
  "instConfig genre' =
     (let c0 = epiano;
          c1 = (if genre' = pop then synth else c0);
          c2 = (if genre' = country then guitar else c1)
      in if genre' = chinese then guzheng else c2)"

text \<open>The drum and bass part of one pass through the loop body, by genre.\<close>

definition drumCalls ::
  "(nat \<Rightarrow> real) \<Rightarrow> nat \<Rightarrow> SongGenre \<Rightarrow> real \<Rightarrow> real \<Rightarrow> AudioNode \<Rightarrow> AudioNode
     \<Rightarrow> SongSectionType \<Rightarrow> real \<Rightarrow> call list \<times> nat" where
  "drumCalls random k genre' rootFreq beatDuration musicBus masterBus sectionType currentTime =
     (let isChorus = (sectionType = CHORUS);
          vm = volMult sectionType;
          barDuration = beatDuration * 4
      in
      if genre' = pop then
        (let hatDiv = (if isChorus then 4 else 2 :: nat) in
         ([playKick currentTime 1.0 masterBus,
           playSnare (currentTime + beatDuration) (0.9 * vm) masterBus,
           playKick (currentTime + beatDuration * 2) 1.0 masterBus,
           playSnare (currentTime + beatDuration * 3) (0.9 * vm) masterBus]
          @ map (\<lambda>i. playHiHat (currentTime + (beatDuration / real hatDiv) * real i)
                       ((if i mod 2 \<noteq> 0 then 0.3 else 0.5) * vm) masterBus
                       (if i mod 2 = 0 then - 0.2 else 0.2)
                       (isChorus \<and> i mod 4 = 2))
              [0 ..< 4 * hatDiv]
          @ map (\<lambda>i. playNote rootFreq (currentTime + (beatDuration / 2) * real i)
                       (beatDuration / 2) bass musicBus 0 (0.5 * vm))
              [0 ..< 8],
          k))
      else if genre' = rnb then
        ([playKick currentTime 1.0 masterBus,
          playSnare (currentTime + beatDuration) 0.8 masterBus,
          playKick (currentTime + beatDuration * 2.5) 0.9 masterBus,
          playNote rootFreq currentTime (beatDuration * 2) bass musicBus 0 (0.6 * vm),
          playNote rootFreq (currentTime + beatDuration * 2.5) (beatDuration * 1.5) bass
            musicBus 0 (0.6 * vm)]
         @ map (\<lambda>i. playHiHat (currentTime + (beatDuration / 2) * real i) (0.2 * vm)
                      masterBus 0.3 False)
             [0 ..< 8],
         k)
      else if genre' = country then
        ([playKick currentTime 0.9 masterBus,
          playSnare (currentTime + beatDuration) (0.8 * vm) masterBus,
          playKick (currentTime + beatDuration * 2) 0.9 masterBus,
          playSnare (currentTime + beatDuration * 3) (0.8 * vm) masterBus,
          playNote rootFreq currentTime beatDuration bass musicBus 0 (0.5 * vm),
          playNote (rootFreq * 1.5) (currentTime + beatDuration * 2) beatDuration bass
            musicBus 0 (0.5 * vm)],
         k)
      else if genre' = chinese then
        ((if isChorus then [playKick currentTime 0.8 masterBus] else [])
         @ (if random k > 0.6
            then [playWoodblock (currentTime + beatDuration * (random (k + 1) * 4)) masterBus]
            else [])
         @ [playNote rootFreq currentTime barDuration bass musicBus 0 0.3],
         if random k > 0.6 then k + 2 else k + 1)
      else ([], k))"

text \<open>The harmony part of the loop body: chords and pad, arpeggio, strum.\<close>

definition harmonyCalls ::
  "SongGenre \<Rightarrow> real list \<Rightarrow> real \<Rightarrow> AudioNode \<Rightarrow> AudioNode \<Rightarrow> SongSectionType
     \<Rightarrow> real \<Rightarrow> call list" where
  "harmonyCalls genre' frequencies beatDuration musicBus reverb sectionType currentTime =
     (let isChorus = (sectionType = CHORUS);
          vm = volMult sectionType;
          barDuration = beatDuration * 4;
          inst = instConfig genre'
      in
      concat (map (\<lambda>(i, f).
                (let pan' = (if i mod 2 = 0 then - 0.3 else 0.3) in
                 [playNote f currentTime barDuration inst musicBus pan' (0.2 * vm),
                  playNote f currentTime barDuration pad reverb (pan' * 0.5) (0.1 * vm)]))
              (enumerate 0 frequencies))
      @ (if genre' = pop \<and> isChorus then
           map (\<lambda>i. playNote (frequencies ! (i mod length frequencies) * 2)
                      (currentTime + (beatDuration / 4) * real i) 0.1 lead musicBus
                      (if i mod 2 = 0 then - 0.4 else 0.4) 0.15)
             [0 ..< 16]
         else [])
      @ (if genre' = country then
           map (\<lambda>(i, f). playNote f (currentTime + real i * 0.03) (barDuration / 2) inst
                           musicBus 0.2 (0.2 * vm))
             (enumerate 0 frequencies)
           @ map (\<lambda>(i, f). playNote f (currentTime + beatDuration * 2 + real i * 0.03)
                             (barDuration / 2) inst musicBus (- 0.2) (0.2 * vm))
               (enumerate 0 frequencies)
         else []))"

text \<open>
  The \<open>while (currentTime < endTime - 0.1)\<close> loop. The result is \<open>None\<close> when the
  run has no schedule in finite numbers: the body runs with \<open>bpm = 0\<close> (the beat
  duration is \<open>Infinity\<close>) or with no frequency (\<open>frequencies[0] / 2\<close> is \<open>NaN\<close>), or
  the loop does not end.
\<close>

partial_function (option) arrangeBars ::
  "(nat \<Rightarrow> real) \<Rightarrow> SongGenre \<Rightarrow> real list \<Rightarrow> int \<Rightarrow> AudioNode \<Rightarrow> AudioNode \<Rightarrow> AudioNode
     \<Rightarrow> SongSectionType \<Rightarrow> real \<Rightarrow> real \<Rightarrow> nat \<Rightarrow> (call list \<times> nat) option" where
  "arrangeBars random genre' frequencies bpm musicBus masterBus reverb sectionType endTime
       currentTime k =
     (if currentTime < endTime - 0.1 then
        (if bpm = 0 \<or> frequencies = [] then None
         else
           (let beatDuration = 60 / real_of_int bpm;
                barDuration = beatDuration * 4;
                rootFreq = hd frequencies / 2;
                d = drumCalls random k genre' rootFreq beatDuration musicBus masterBus
                      sectionType currentTime;
                h = harmonyCalls genre' frequencies beatDuration musicBus reverb sectionType
                      currentTime
            in Option.bind
                 (arrangeBars random genre' frequencies bpm musicBus masterBus reverb
                    sectionType endTime (currentTime + barDuration) (snd d))
                 (\<lambda>r. Some (fst d @ h @ fst r, snd r))))
      else Some ([], k))"

declare arrangeBars.simps [code]

definition playArrangement ::
  "(nat \<Rightarrow> real) \<Rightarrow> nat \<Rightarrow> SongGenre \<Rightarrow> real list \<Rightarrow> real \<Rightarrow> real \<Rightarrow> int
     \<Rightarrow> AudioNode \<Rightarrow> AudioNode \<Rightarrow> AudioNode \<Rightarrow> SongSectionType \<Rightarrow> (call list \<times> nat) option" where
  "playArrangement random k genre' frequencies startTime duration' bpm musicBus masterBus
       reverb sectionType =
     (let currentTime = startTime;
          endTime = startTime + duration';
          isChorus = (sectionType = CHORUS);
          crash = (if isChorus \<and> \<bar>currentTime - startTime\<bar> < 0.1
                   then [playCrash currentTime musicBus] else [])
      in Option.bind
           (arrangeBars random genre' frequencies bpm musicBus masterBus reverb sectionType
              endTime currentTime k)
           (\<lambda>r. Some (crash @ fst r, snd r)))"

section \<open>Live render driver (playSongDemo of audioEngine.ts)\<close>

text \<open>
  The state of the section walk: the cursor, the number of random draws made, and a
  trace with one entry per chord slot visited, holding the cursor at the start of the
  slot's window and the calls scheduled for it.
\<close>

record walk =
  cursor :: real
  draws :: nat
  trace :: "(real \<times> call list) list"

text \<open>\<open>forEach\<close> with a body that may fail: the first failure ends the walk.\<close>

fun forEach :: "('a \<Rightarrow> 's \<Rightarrow> 's option) \<Rightarrow> 'a list \<Rightarrow> 's \<Rightarrow> 's option" where
  "forEach body [] s = Some s"
| "forEach body (x # xs) s = Option.bind (body x s) (forEach body xs)"

definition chordStep ::
  "(nat \<Rightarrow> real) \<Rightarrow> SongGenre \<Rightarrow> int \<Rightarrow> SongSectionType \<Rightarrow> real \<Rightarrow> string \<Rightarrow> walk
     \<Rightarrow> walk option" where
  "chordStep random genre' bpm sectionType durationPerChord chordName w =
     (let freqs = getChordFrequencies chordName in
      if length freqs > 0 then
        Option.bind
          (playArrangement random (draws w) genre' freqs (cursor w) durationPerChord bpm
             MusicBus MasterCompressor ReverbNode sectionType)
          (\<lambda>r. Some \<lparr>cursor = cursor w + durationPerChord, draws = snd r,
                      trace = trace w @ [(cursor w, fst r)]\<rparr>)
      else Some \<lparr>cursor = cursor w + durationPerChord, draws = draws w,
                 trace = trace w @ [(cursor w, [])]\<rparr>)"

text \<open>
  One chord line. With \<open>bpm = 0\<close> the bar lasts \<open>Infinity\<close> seconds: a line with a
  chord then has no schedule in finite numbers (the cursor itself becomes \<open>Infinity\<close>),
  a line without chords changes nothing.
\<close>

definition lineStep ::
  "(nat \<Rightarrow> real) \<Rightarrow> SongGenre \<Rightarrow> int \<Rightarrow> SongSectionType \<Rightarrow> string \<Rightarrow> walk \<Rightarrow> walk option" where
  "lineStep random genre' bpm sectionType chordLine w =
     (let cs = chordsInLine chordLine in
      case secondsPerBar bpm of
        None \<Rightarrow> if cs = [] then Some w else None
      | Some spb \<Rightarrow>
          (let durationPerChord = spb / (if length cs = 0 then 1 else real (length cs))
           in forEach (chordStep random genre' bpm sectionType durationPerChord) cs w))"

definition sectionChords :: "SongSection \<Rightarrow> string list" where
  "sectionChords section =
     (if length (chords section) > 0 then chords section
      else replicate (length (lyrics section)) ''C'')"

definition sectionStep ::
  "(nat \<Rightarrow> real) \<Rightarrow> SongGenre \<Rightarrow> int \<Rightarrow> SongSection \<Rightarrow> walk \<Rightarrow> walk option" where
  "sectionStep random genre' bpm section w =
     forEach (lineStep random genre' bpm (type section)) (sectionChords section) w"

record playback =
  vocals :: "call list"
  windows :: "(real \<times> call list) list"
  duration :: real

text \<open>
  \<open>playSongDemo(song, vocalBuffer)\<close> at context time \<open>now\<close>; \<open>vocalBuffer\<close> says
  whether a vocal waveform is given. The result is \<open>None\<close> when the walk has no
  schedule in finite numbers, and when the BPM is not a safe integer.
\<close>

definition playSongDemo :: "(nat \<Rightarrow> real) \<Rightarrow> real \<Rightarrow> Song \<Rightarrow> bool \<Rightarrow> playback option" where
  "playSongDemo random now song vocalBuffer =
     (let startTime = now + 0.2;
          vs = (if vocalBuffer
                then [vocalStart startTime MasterCompressor,
                      vocalStart (startTime + 0.02) ReverbNode,
                      vocalStart (startTime + 0.03) ReverbNode]
                else [])
      in Option.bind (bpm_of_tempo (tempo song))
           (\<lambda>bpm. map_option
              (\<lambda>w. \<lparr>vocals = vs, windows = trace w, duration = cursor w - startTime\<rparr>)
              (forEach (sectionStep random (genre song) bpm) (sections song)
                 \<lparr>cursor = startTime, draws = 0, trace = []\<rparr>)))"

text \<open>All calls of a pass in the order of the windows; none when there is no schedule.\<close>

definition scheduled :: "playback option \<Rightarrow> call list" where
  "scheduled r = (case r of None \<Rightarrow> [] | Some p \<Rightarrow> concat (map snd (windows p)))"

section \<open>Export engine (src/unnamed/part_000)\<close>

text \<open>
  The calls of the export engine's simpler synthesizers:
  \<open>playNote_p0 freq time duration type dest vol\<close>, \<open>playKick_p0 time vol dest\<close>
  (with the sidechain duck of the music bus), \<open>playSnare_p0 time vol dest\<close>,
  \<open>playHiHat_p0 time vol dest\<close> and the start of the vocal source.
\<close>

datatype call_p0 =
    playNote_p0 real real real string AudioNode real
  | playKick_p0 real real AudioNode
  | playSnare_p0 real real AudioNode
  | playHiHat_p0 real real AudioNode
  | vocalStart_p0 real

record walk_p0 =
  cursor_p0 :: real
  trace_p0 :: "(real \<times> call_p0 list) list"

definition chordStep_p0 :: "real \<Rightarrow> string \<Rightarrow> walk_p0 \<Rightarrow> walk_p0" where
  "chordStep_p0 dur c w =
     (let freqs = getChordFrequencies_p0 c;
          t = cursor_p0 w;
          calls =
            (if length freqs \<noteq> 0 then
               map (\<lambda>f. playNote_p0 f t dur ''synth'' MusicBus 0.15) freqs
               @ [playNote_p0 (hd freqs / 2) t dur ''bass'' MusicBus 0.4,
                  playKick_p0 t 0.9 MasterCompressor,
                  playSnare_p0 (t + dur / 2) 0.7 MasterCompressor]
               @ map (\<lambda>i. playHiHat_p0 (t + (dur / 4) * real i) 0.3 MasterCompressor)
                   [0 ..< 4]
             else [])
      in \<lparr>cursor_p0 = t + dur, trace_p0 = trace_p0 w @ [(t, calls)]\<rparr>)"

definition lineStep_p0 :: "real \<Rightarrow> string \<Rightarrow> walk_p0 \<Rightarrow> walk_p0" where
  "lineStep_p0 bar chordLine w =
     (let cs = chordsInLine_p0 chordLine;
          dur = bar / (if length cs = 0 then 1 else real (length cs))
      in fold (chordStep_p0 dur) cs w)"

definition sectionStep_p0 :: "real \<Rightarrow> SongSection \<Rightarrow> walk_p0 \<Rightarrow> walk_p0" where
  "sectionStep_p0 bar section w = fold (lineStep_p0 bar) (chords section) w"

record rendering =
  nodes :: "call_p0 list"
  windows_p0 :: "(real \<times> call_p0 list) list"
  duration_p0 :: real

text \<open>\<open>renderMusicToContext\<close>; \<open>None\<close> when the BPM is not a safe integer.\<close>

definition renderMusicToContext :: "Song \<Rightarrow> bool \<Rightarrow> real \<Rightarrow> rendering option" where
  "renderMusicToContext song vocalBuffer startTime =
     map_option
       (\<lambda>bpm.
          (let w = fold (sectionStep_p0 (barDur bpm)) (sections song)
                     \<lparr>cursor_p0 = startTime, trace_p0 = []\<rparr>
           in \<lparr>nodes = (if vocalBuffer then [vocalStart_p0 startTime] else [])
                        @ concat (map snd (trace_p0 w)),
               windows_p0 = trace_p0 w,
               duration_p0 = cursor_p0 w - startTime\<rparr>))
       (bpm_p0 (tempo song))"

text \<open>
  \<open>renderSongToBlob\<close>: the chord count, the analytic total duration, and the length in
  sample frames of the offline context \<open>OfflineAudioContext(2, length, 44100)\<close>.
\<close>

definition totalChords :: "Song \<Rightarrow> nat" where
  "totalChords song =
     fold (\<lambda>s n. fold (\<lambda>cl m. m + length (chordsInLine_p0 cl)) (chords s) n) (sections song) 0"

definition totalDuration :: "Song \<Rightarrow> real option" where
  "totalDuration song =
     map_option (\<lambda>bpm. real (totalChords song) * (barDur bpm / 4) + 5) (bpm_p0 (tempo song))"

definition offlineLength :: "Song \<Rightarrow> int option" where
  "offlineLength song = map_option (\<lambda>d. \<lceil>44100 * d\<rceil>) (totalDuration song)"

section \<open>WAV encoder (audioBufferToWav)\<close>

text \<open>
  An audio buffer: the sample rate, the length in sample frames and the sample data of
  each channel. Bytes are integers from 0 to 255; the output array is modelled by the
  list of the bytes written so far, so that \<open>pos\<close> is its length.
\<close>

record AudioBuffer =
  sampleRate :: nat
  buf_length :: nat
  channelData :: "real list list"

definition numberOfChannels :: "AudioBuffer \<Rightarrow> nat" where
  "numberOfChannels b = length (channelData b)"

text \<open>Little-endian \<open>DataView\<close> writes; the value is reduced modulo the field width.\<close>

definition setUint16 :: "int \<Rightarrow> int list" where
  "setUint16 data = [data mod 256, (data div 256) mod 256]"

definition setUint32 :: "int \<Rightarrow> int list" where
  "setUint32 data =
     [data mod 256, (data div 256) mod 256, (data div 65536) mod 256,
      (data div 16777216) mod 256]"

text \<open>\<open>setInt16\<close> truncates its argument towards zero and stores it in two's complement.\<close>

definition js_trunc :: "real \<Rightarrow> int" where
  "js_trunc x = (if x < 0 then - \<lfloor>- x\<rfloor> else \<lfloor>x\<rfloor>)"

definition setInt16 :: "real \<Rightarrow> int list" where
  "setInt16 x = setUint16 (js_trunc x)"

text \<open>
  One sample: \<open>channels[i][offset]\<close>, clamped and scaled. A read past the end of the
  channel data is \<open>undefined\<close>, which the clamp turns into \<open>NaN\<close> and \<open>setInt16\<close>
  stores as 0.
\<close>

definition sampleBytes :: "real list \<Rightarrow> nat \<Rightarrow> int list" where
  "sampleBytes channel offset =
     (if offset < length channel then
        (let sample = max (- 1) (min 1 (channel ! offset));
             sample' = (if sample < 0 then sample * 32768 else sample * 32767)
         in setInt16 sample')
      else setUint16 0)"

definition frameBytes :: "AudioBuffer \<Rightarrow> nat \<Rightarrow> int list" where
  "frameBytes b offset = concat (map (\<lambda>channel. sampleBytes channel offset) (channelData b))"

text \<open>The loop \<open>while (pos < length)\<close>; \<open>None\<close> if it does not end.\<close>

partial_function (option) wavFrames ::
  "AudioBuffer \<Rightarrow> int \<Rightarrow> nat \<Rightarrow> int list \<Rightarrow> int list option" where
  "wavFrames b length' offset out =
     (if int (length out) < length'
      then wavFrames b length' (offset + 1) (out @ frameBytes b offset)
      else Some out)"

declare wavFrames.simps [code]

definition wavHeader :: "AudioBuffer \<Rightarrow> int list" where
  "wavHeader b =
     (let numOfChan = int (numberOfChannels b);
          length' = int (buf_length b) * numOfChan * 2 + 44;
          v1 = setUint32 0x46464952;
          v2 = v1 @ setUint32 (length' - 8);
          v3 = v2 @ setUint32 0x45564157;
          v4 = v3 @ setUint32 0x20746d66;
          v5 = v4 @ setUint32 16;
          v6 = v5 @ setUint16 1;
          v7 = v6 @ setUint16 numOfChan;
          v8 = v7 @ setUint32 (int (sampleRate b));
          v9 = v8 @ setUint32 (int (sampleRate b) * 2 * numOfChan);
          v10 = v9 @ setUint16 (numOfChan * 2);
          v11 = v10 @ setUint16 16;
          v12 = v11 @ setUint32 0x61746164
      in v12 @ setUint32 (length' - int (length v12) - 4))"

definition audioBufferToWav :: "AudioBuffer \<Rightarrow> int list option" where
  "audioBufferToWav b =
     (let numOfChan = int (numberOfChannels b);
          length' = int (buf_length b) * numOfChan * 2 + 44
      in wavFrames b length' 0 (wavHeader b))"

text \<open>
  The buffer that \<open>offlineCtx.startRendering()\<close> delivers: two channels at 44100 Hz
  of the context's length. The rendered sample values are the work of the audio
  backend and are a parameter: \<open>samples c i\<close> is sample \<open>i\<close> of channel \<open>c\<close>. There
  is no buffer when the length is not positive or the BPM is not a safe integer.
\<close>

definition renderedBuffer :: "Song \<Rightarrow> (nat \<Rightarrow> nat \<Rightarrow> real) \<Rightarrow> AudioBuffer option" where
  "renderedBuffer song samples =
     (case offlineLength song of
        None \<Rightarrow> None
      | Some len \<Rightarrow>
          if len \<le> 0 then None
          else Some \<lparr>sampleRate = 44100, buf_length = nat len,
                      channelData = map (\<lambda>c. map (samples c) [0 ..< nat len]) [0 ..< 2]\<rparr>)"

definition renderSongToBlob :: "Song \<Rightarrow> (nat \<Rightarrow> nat \<Rightarrow> real) \<Rightarrow> int list option" where
  "renderSongToBlob song samples = Option.bind (renderedBuffer song samples) audioBufferToWav"

text \<open>Reading a little-endian field back.\<close>

definition le_value :: "int list \<Rightarrow> int" where
  "le_value bs = foldr (\<lambda>b v. b + 256 * v) bs 0"

definition field :: "nat \<Rightarrow> nat \<Rightarrow> int list \<Rightarrow> int list" where
  "field pos n wav = take n (drop pos wav)"

definition ascii :: "string \<Rightarrow> int list" where
  "ascii s = map (\<lambda>c. of_char c) s"

section \<open>The active-node registry and stopAudio\<close>

text \<open>
  Audio nodes are objects held by reference: the registry \<open>activeNodes\<close> is a list of
  references into a store. Of a node the model keeps its class, whether \<open>start\<close> was
  called, whether \<open>stop\<close> was called, and whether its output is connected.
  \<open>stop()\<close> on a source that was never started raises \<open>InvalidStateError\<close>;
  \<open>disconnect()\<close> never raises.
\<close>

datatype NodeClass = AudioBufferSourceNode | OscillatorNode | OtherNode

record node =
  cls :: NodeClass
  started :: bool
  stopped :: bool
  connected :: bool

record engine =
  activeNodes :: "nat list"
  store :: "nat \<Rightarrow> node option"

definition node_stop :: "node \<Rightarrow> node option" where
  "node_stop n = (if started n then Some (n\<lparr>stopped := True\<rparr>) else None)"

definition node_disconnect :: "node \<Rightarrow> node" where
  "node_disconnect n = n\<lparr>connected := False\<rparr>"

text \<open>The body of the \<open>forEach\<close> in \<open>stopAudio\<close>: an exception leaves the \<open>try\<close> block, and
  the node is as the statements before it left it.\<close>

definition stopNode :: "node \<Rightarrow> node" where
  "stopNode n =
     (case (if cls n = AudioBufferSourceNode then node_stop n else Some n) of
        None \<Rightarrow> n
      | Some n1 \<Rightarrow>
          (case (if cls n1 = OscillatorNode then node_stop n1 else Some n1) of
             None \<Rightarrow> n1
           | Some n2 \<Rightarrow> node_disconnect n2))"

definition stopAudio :: "engine \<Rightarrow> engine" where
  "stopAudio e =
     \<lparr>activeNodes = [],
      store = fold (\<lambda>r h. case h r of None \<Rightarrow> h | Some n \<Rightarrow> h(r \<mapsto> stopNode n))
                (activeNodes e) (store e)\<rparr>"

definition is_source :: "node \<Rightarrow> bool" where
  "is_source n = (cls n = AudioBufferSourceNode \<or> cls n = OscillatorNode)"

section \<open>Chord slots and windows\<close>

text \<open>
  The chord slots of a song in playing order, each with its allotted duration, the
  bar divided by the number of chords in its chord line, and its chord symbol: for the
  live engine (with its placeholder chord lines for a section without chords) and for
  the export engine.
\<close>

definition line_slots :: "real \<Rightarrow> string \<Rightarrow> (real \<times> string) list" where
  "line_slots spb chordLine =
     (let cs = chordsInLine chordLine in map (\<lambda>c. (spb / real (length cs), c)) cs)"

definition song_slots :: "real \<Rightarrow> Song \<Rightarrow> (real \<times> string) list" where
  "song_slots spb song =
     concat (map (\<lambda>section. concat (map (line_slots spb) (sectionChords section)))
               (sections song))"

definition line_slots_p0 :: "real \<Rightarrow> string \<Rightarrow> (real \<times> string) list" where
  "line_slots_p0 bar chordLine =
     (let cs = chordsInLine_p0 chordLine in map (\<lambda>c. (bar / real (length cs), c)) cs)"

definition song_slots_p0 :: "real \<Rightarrow> Song \<Rightarrow> (real \<times> string) list" where
  "song_slots_p0 bar song =
     concat (map (\<lambda>section. concat (map (line_slots_p0 bar) (chords section)))
               (sections song))"

text \<open>
  A trace follows a list of slots from a cursor value \<open>c\<close>: it has one window for
  each slot, in order; the first window starts at \<open>c\<close> and each next one where the one
  before ends; and every window, with its start, its slot's duration and chord symbol
  and its calls, satisfies \<open>Q\<close>.
\<close>

fun follows ::
  "(real \<Rightarrow> real \<Rightarrow> string \<Rightarrow> 'c list \<Rightarrow> bool) \<Rightarrow> real \<Rightarrow> (real \<times> string) list
     \<Rightarrow> (real \<times> 'c list) list \<Rightarrow> bool" where
  "follows Q c [] ws = (ws = [])"
| "follows Q c (sl # sls) [] = False"
| "follows Q c (sl # sls) (w # ws) =
     (fst w = c \<and> Q c (fst sl) (snd sl) (snd w) \<and> follows Q (c + fst sl) sls ws)"

text \<open>The routing of the drum calls of the live engine.\<close>

definition routed :: "call \<Rightarrow> bool" where
  "routed c =
     ((is_kick c \<or> is_snare c \<or> is_hihat c \<or> is_woodblock c
         \<longrightarrow> call_dest c = MasterCompressor)
      \<and> (is_crash c \<longrightarrow> call_dest c = MusicBus))"

text \<open>
  What holds of the window of a chord slot in the live engine: an unresolvable chord
  symbol has no calls; the drum calls are routed as above; and, when \<open>timed\<close>, no call
  is scheduled before the start of the window.
\<close>

definition window_ok :: "bool \<Rightarrow> real \<Rightarrow> real \<Rightarrow> string \<Rightarrow> call list \<Rightarrow> bool" where
  "window_ok timed start d name calls =
     ((getChordFrequencies name = [] \<longrightarrow> calls = [])
      \<and> (\<forall>x \<in> set calls. routed x)
      \<and> (timed \<longrightarrow> (\<forall>x \<in> set calls. start \<le> call_time x)))"

section \<open>Example inputs\<close>

text \<open>A song of one section with the given chord lines and one lyric line per chord line.\<close>

definition song_of :: "SongGenre \<Rightarrow> string \<Rightarrow> SongSectionType \<Rightarrow> string list \<Rightarrow> Song" where
  "song_of g t ty chordLines =
     \<lparr>title = ''Demo'', genre = g, artistStyle = [], tempo = t, key = ''C'',
      description = [], coverArt = None,
      sections = [\<lparr>type = ty, lyrics = map (\<lambda>_. ''la'') chordLines, chords = chordLines\<rparr>]\<rparr>"

text \<open>A constant random source.\<close>

definition random_half :: "nat \<Rightarrow> real" where
  "random_half k = 1 / 2"

text \<open>A registry of a started oscillator, its gain node and a started buffer source.\<close>

definition engine_playing :: engine where
  "engine_playing =
     \<lparr>activeNodes = [0, 1, 2],
      store = [0 \<mapsto> \<lparr>cls = OscillatorNode, started = True, stopped = False, connected = True\<rparr>,
               1 \<mapsto> \<lparr>cls = OtherNode, started = False, stopped = False, connected = True\<rparr>,
               2 \<mapsto> \<lparr>cls = AudioBufferSourceNode, started = True, stopped = False,
                       connected = True\<rparr>]\<rparr>"

text \<open>A stereo buffer of two sample frames.\<close>

definition buffer_2x2 :: AudioBuffer where
  "buffer_2x2 = \<lparr>sampleRate = 44100, buf_length = 2, channelData = [[0.5, - 1.5], [- 0.25, 1]]\<rparr>"

section \<open>Verification\<close>

subsection \<open>Chord-quality lookup\<close>

text \<open>The first match in a list sorted longest key first is a longest match.\<close>

lemma find_sort_longest:
  assumes "find P (sort_longest_first es) = Some e"
  shows "e \<in> set es \<and> P e \<and> (\<forall>e' \<in> set es. P e' \<longrightarrow> length (fst e') \<le> length (fst e))"
proof -
  let ?f = "\<lambda>e. - int (length (fst e))"
  let ?ys = "sort_key ?f es"
  from assms obtain i where i: "i < length ?ys" "P (?ys ! i)" "e = ?ys ! i"
    and before: "\<forall>j<i. \<not> P (?ys ! j)"
    unfolding sort_longest_first_def find_Some_iff by blast
  have srt: "sorted (map ?f ?ys)" by (rule sorted_sort_key)
  have "e \<in> set es" using i(1,3) by (metis nth_mem set_sort)
  moreover have "length (fst e') \<le> length (fst e)" if "e' \<in> set es" "P e'" for e'
  proof -
    from that(1) have "e' \<in> set ?ys" by simp
    then obtain j where j: "j < length ?ys" "e' = ?ys ! j" by (metis in_set_conv_nth)
    with before that(2) have "i \<le> j" by (meson not_le)
    with srt j(1) have "map ?f ?ys ! i \<le> map ?f ?ys ! j"
      by (simp add: sorted_iff_nth_mono del: map_map)
    with i(1,3) j show ?thesis by simp
  qed
  ultimately show ?thesis using i(2,3) by blast
qed

lemma set_object_entries: "set (object_entries tbl) = set tbl"
  by (auto simp: object_entries_def)

lemma startsWith_same_length:
  "startsWith q k \<Longrightarrow> startsWith q k' \<Longrightarrow> length k = length k' \<Longrightarrow> k = k'"
  by (metis startsWith_def)

lemma longest_key_chosen:
  assumes "(k, v) \<in> set tbl" "startsWith q k"
    and "\<forall>e \<in> set tbl. startsWith q (fst e) \<longrightarrow> length (fst e) \<le> length k"
    and "distinct (map fst tbl)"
  shows "find (\<lambda>e. startsWith q (fst e)) (sort_longest_first (object_entries tbl)) = Some (k, v)"
proof -
  let ?P = "\<lambda>e. startsWith q (fst e)"
  let ?es = "object_entries tbl"
  have "(k, v) \<in> set (sort_longest_first ?es)"
    using assms(1) by (simp add: sort_longest_first_def set_object_entries)
  with assms(2) have "find ?P (sort_longest_first ?es) \<noteq> None"
    by (auto simp: find_None_iff)
  then obtain e where e: "find ?P (sort_longest_first ?es) = Some e" by blast
  from find_sort_longest [OF e]
  have mem: "e \<in> set tbl" and pe: "startsWith q (fst e)"
    and mx: "\<forall>e' \<in> set tbl. startsWith q (fst e') \<longrightarrow> length (fst e') \<le> length (fst e)"
    by (simp_all add: set_object_entries)
  from mx assms(1,2) have "length k \<le> length (fst e)" by fastforce
  moreover from assms(3) mem pe have "length (fst e) \<le> length k" by blast
  ultimately have "fst e = k" using pe assms(2) startsWith_same_length by (metis le_antisym)
  with mem assms(1,4) have "e = (k, v)"
    by (metis eq_key_imp_eq_value prod.collapse)
  with e show ?thesis by simp
qed

lemma no_key_default:
  assumes "\<forall>e \<in> set tbl. \<not> startsWith q (fst e)"
  shows "find (\<lambda>e. startsWith q (fst e)) (sort_longest_first (object_entries tbl)) = None"
  using assms by (auto simp: find_None_iff sort_longest_first_def set_object_entries)

lemma startsWith_refl_or: "(q = k \<or> startsWith q k) = startsWith q k"
  by (auto simp: startsWith_def)

lemma distinct_CHORD_SHAPES: "distinct (map fst CHORD_SHAPES)"
  by (simp add: CHORD_SHAPES_def)

lemma distinct_CHORD_SHAPES_p0: "distinct (map fst CHORD_SHAPES_p0)"
  by (simp add: CHORD_SHAPES_p0_def)

lemma shape_maj: "shape_of CHORD_SHAPES ''maj'' = [0, 4, 7]"
  by (simp add: shape_of_def CHORD_SHAPES_def)

lemma shape_m: "shape_of CHORD_SHAPES ''m'' = [0, 3, 7]"
  by (simp add: shape_of_def CHORD_SHAPES_def)

lemma shape_maj_p0: "shape_of CHORD_SHAPES_p0 ''maj'' = [0, 4, 7]"
  by (simp add: shape_of_def CHORD_SHAPES_p0_def)

lemma minor_keys:
  assumes "(k, v) \<in> set CHORD_SHAPES" "startsWith q k" "q = ''m'' \<or> q = ''min''"
  shows "v = [0, 3, 7]"
  using assms by (auto simp: CHORD_SHAPES_def startsWith_def)

lemma chordIntervals_empty: "chordIntervals [] = [0, 4, 7]"
  by code_simp

lemma chordIntervals_p0_empty: "chordIntervals_p0 [] = [0, 4, 7]"
  by code_simp

lemma chordIntervals_longest:
  assumes "(k, v) \<in> set CHORD_SHAPES" "startsWith q k"
    and "\<forall>e \<in> set CHORD_SHAPES. startsWith q (fst e) \<longrightarrow> length (fst e) \<le> length k"
  shows "chordIntervals q = v"
proof -
  from assms(1,2) have "q \<noteq> []" by (auto simp: CHORD_SHAPES_def startsWith_def)
  moreover have "find (\<lambda>e. startsWith q (fst e)) (sort_longest_first (object_entries CHORD_SHAPES))
      = Some (k, v)"
    using assms distinct_CHORD_SHAPES by (rule longest_key_chosen)
  ultimately show ?thesis
    using minor_keys [OF assms(1,2)]
    by (simp add: chordIntervals_def startsWith_refl_or shape_m Let_def)
qed

lemma chordIntervals_default:
  assumes "\<forall>e \<in> set CHORD_SHAPES. \<not> startsWith q (fst e)"
  shows "chordIntervals q = [0, 4, 7]"
proof (cases "q = []")
  case True
  then show ?thesis by (simp add: chordIntervals_empty)
next
  case False
  from assms have "\<not> startsWith q ''m''" "\<not> startsWith q ''min''"
    by (auto simp: CHORD_SHAPES_def)
  then have "q \<noteq> ''m''" "q \<noteq> ''min''" by (auto simp: startsWith_def)
  with False no_key_default [OF assms] show ?thesis
    by (simp add: chordIntervals_def startsWith_refl_or shape_maj Let_def)
qed

lemma chordIntervals_p0_longest:
  assumes "(k, v) \<in> set CHORD_SHAPES_p0" "startsWith q k"
    and "\<forall>e \<in> set CHORD_SHAPES_p0. startsWith q (fst e) \<longrightarrow> length (fst e) \<le> length k"
  shows "chordIntervals_p0 q = v"
proof -
  from assms(1,2) have "q \<noteq> []" by (auto simp: CHORD_SHAPES_p0_def startsWith_def)
  moreover have "find (\<lambda>e. startsWith q (fst e))
      (sort_longest_first (object_entries CHORD_SHAPES_p0)) = Some (k, v)"
    using assms distinct_CHORD_SHAPES_p0 by (rule longest_key_chosen)
  ultimately show ?thesis
    by (simp add: chordIntervals_p0_def Let_def)
qed

lemma chordIntervals_p0_default:
  assumes "\<forall>e \<in> set CHORD_SHAPES_p0. \<not> startsWith q (fst e)"
  shows "chordIntervals_p0 q = [0, 4, 7]"
proof (cases "q = []")
  case True
  then show ?thesis by (simp add: chordIntervals_p0_empty)
next
  case False
  with no_key_default [OF assms] show ?thesis
    by (simp add: chordIntervals_p0_def shape_maj_p0 Let_def)
qed

text \<open>
  Claim C4. In both engines the interval set chosen for a quality string \<open>q\<close> is the
  one keyed by the longest table key that \<open>q\<close> starts with; when \<open>q\<close> starts with no
  table key, and when \<open>q\<close> is empty, it is the major triad \<open>[0, 4, 7]\<close>; the quality
  \<open>maj7\<close> gets \<open>[0, 4, 7, 11]\<close>.
\<close>

theorem C4_longest_matching_key:
  "((k, v) \<in> set CHORD_SHAPES \<and> startsWith q k
      \<and> (\<forall>e \<in> set CHORD_SHAPES. startsWith q (fst e) \<longrightarrow> length (fst e) \<le> length k)
      \<longrightarrow> chordIntervals q = v)
   \<and> ((\<forall>e \<in> set CHORD_SHAPES. \<not> startsWith q (fst e)) \<longrightarrow> chordIntervals q = [0, 4, 7])
   \<and> ((k, v) \<in> set CHORD_SHAPES_p0 \<and> startsWith q k
      \<and> (\<forall>e \<in> set CHORD_SHAPES_p0. startsWith q (fst e) \<longrightarrow> length (fst e) \<le> length k)
      \<longrightarrow> chordIntervals_p0 q = v)
   \<and> ((\<forall>e \<in> set CHORD_SHAPES_p0. \<not> startsWith q (fst e)) \<longrightarrow> chordIntervals_p0 q = [0, 4, 7])
   \<and> chordIntervals ''maj7'' = [0, 4, 7, 11] \<and> chordIntervals [] = [0, 4, 7]
   \<and> chordIntervals_p0 ''maj7'' = [0, 4, 7, 11] \<and> chordIntervals_p0 [] = [0, 4, 7]"
proof -
  have "chordIntervals ''maj7'' = [0, 4, 7, 11]" by code_simp
  moreover have "chordIntervals_p0 ''maj7'' = [0, 4, 7, 11]" by code_simp
  ultimately show ?thesis
    using chordIntervals_longest [of k v q] chordIntervals_default [of q]
      chordIntervals_p0_longest [of k v q] chordIntervals_p0_default [of q]
      chordIntervals_empty chordIntervals_p0_empty
    by blast
qed

text \<open>The claim at \<open>m7b5\<close> and \<open>6\<close> (live engine) and at \<open>maj9\<close> and \<open>+\<close> (export engine).\<close>

theorem C4_witness:
  "chordIntervals ''m7b5'' = [0, 3, 7, 10] \<and> chordIntervals ''6'' = [0, 4, 7]
   \<and> chordIntervals_p0 ''maj9'' = [0, 4, 7] \<and> chordIntervals_p0 ''+'' = [0, 4, 7]"
proof -
  have a: "(''m7'', [0, 3, 7, 10]) \<in> set CHORD_SHAPES \<and> startsWith ''m7b5'' ''m7''
      \<and> (\<forall>e \<in> set CHORD_SHAPES. startsWith ''m7b5'' (fst e) \<longrightarrow> length (fst e) \<le> length ''m7'')"
    by (simp add: CHORD_SHAPES_def startsWith_def)
  have b: "\<forall>e \<in> set CHORD_SHAPES. \<not> startsWith ''6'' (fst e)"
    by (simp add: CHORD_SHAPES_def startsWith_def)
  have c: "(''maj'', [0, 4, 7]) \<in> set CHORD_SHAPES_p0 \<and> startsWith ''maj9'' ''maj''
      \<and> (\<forall>e \<in> set CHORD_SHAPES_p0. startsWith ''maj9'' (fst e) \<longrightarrow> length (fst e) \<le> length ''maj'')"
    by (simp add: CHORD_SHAPES_p0_def startsWith_def)
  have d: "\<forall>e \<in> set CHORD_SHAPES_p0. \<not> startsWith ''+'' (fst e)"
    by (simp add: CHORD_SHAPES_p0_def startsWith_def)
  from C4_longest_matching_key [of "''m7''" "[0, 3, 7, 10]" "''m7b5''"] a
  have "chordIntervals ''m7b5'' = [0, 3, 7, 10]" by blast
  moreover from C4_longest_matching_key [of "''m7''" "[0, 3, 7, 10]" "''6''"] b
  have "chordIntervals ''6'' = [0, 4, 7]" by blast
  moreover from C4_longest_matching_key [of "''maj''" "[0, 4, 7]" "''maj9''"] c
  have "chordIntervals_p0 ''maj9'' = [0, 4, 7]" by blast
  moreover from C4_longest_matching_key [of "''maj''" "[0, 4, 7]" "''+''"] d
  have "chordIntervals_p0 ''+'' = [0, 4, 7]" by blast
  ultimately show ?thesis by blast
qed

subsection \<open>Chord frequencies\<close>

lemma rootMatch_shape:
  assumes "rootMatch chordName = Some (rootNote, rest)"
  shows "\<exists>c. is_root_letter c
           \<and> (rootNote = [c] \<or> rootNote = [c, CHR ''#''] \<or> rootNote = [c, CHR ''b''])"
  using assms unfolding rootMatch_def
  by (cases chordName) (auto split: list.splits if_splits)

lemma NOTES_keys:
  "map fst NOTES =
     [''Cb'', ''C'', ''C#'', ''Db'', ''D'', ''D#'', ''Eb'', ''E'', ''E#'', ''F'', ''F#'', ''Gb'',
      ''G'', ''G#'', ''Ab'', ''A'', ''A#'', ''Bb'', ''B'', ''B#'']"
  by (simp add: NOTES_def)

lemma NOTES_positive: "map_of NOTES r = Some b \<Longrightarrow> 0 < b"
proof -
  assume "map_of NOTES r = Some b"
  then have "(r, b) \<in> set NOTES" by (rule map_of_SomeD)
  then have "b \<in> snd ` set NOTES" by force
  then show ?thesis unfolding NOTES_def by auto
qed

lemma NOTES_roots:
  assumes "is_root_letter c"
  shows "[c] \<in> set (map fst NOTES)" "[c, CHR ''#''] \<in> set (map fst NOTES)"
    "[c, CHR ''b''] = ''Fb'' \<or> [c, CHR ''b''] \<in> set (map fst NOTES)"
  using assms unfolding NOTES_keys is_root_letter_def by auto

lemma rootMatch_root_cases:
  assumes "rootMatch chordName = Some (rootNote, rest)"
  shows "rootNote = ''Fb'' \<or> (\<exists>b. map_of NOTES rootNote = Some b \<and> 0 < b)"
proof -
  from rootMatch_shape [OF assms] obtain c where c: "is_root_letter c"
    and r: "rootNote = [c] \<or> rootNote = [c, CHR ''#''] \<or> rootNote = [c, CHR ''b'']"
    by blast
  from NOTES_roots [OF c] r have "rootNote = ''Fb'' \<or> rootNote \<in> set (map fst NOTES)"
    by blast
  then have "rootNote = ''Fb'' \<or> map_of NOTES rootNote \<noteq> None"
    by (simp add: map_of_eq_None_iff)
  then show ?thesis using NOTES_positive by blast
qed

lemma chordIntervals_in_table: "chordIntervals q \<in> snd ` set CHORD_SHAPES"
proof -
  have m: "shape_of CHORD_SHAPES ''m'' \<in> snd ` set CHORD_SHAPES"
    and mj: "shape_of CHORD_SHAPES ''maj'' \<in> snd ` set CHORD_SHAPES"
    by (simp_all add: shape_of_def CHORD_SHAPES_def)
  have f: "snd e \<in> snd ` set CHORD_SHAPES"
    if "find P (sort_longest_first (object_entries CHORD_SHAPES)) = Some e" for P e
    using find_sort_longest [OF that] by (simp add: set_object_entries)
  show ?thesis
    using m mj f by (auto simp: chordIntervals_def Let_def split: option.splits)
qed

lemma chordIntervals_p0_in_table: "chordIntervals_p0 q \<in> snd ` set CHORD_SHAPES_p0"
proof -
  have mj: "shape_of CHORD_SHAPES_p0 ''maj'' \<in> snd ` set CHORD_SHAPES_p0"
    by (simp_all add: shape_of_def CHORD_SHAPES_p0_def)
  have f: "snd e \<in> snd ` set CHORD_SHAPES_p0"
    if "find P (sort_longest_first (object_entries CHORD_SHAPES_p0)) = Some e" for P e
    using find_sort_longest [OF that] by (simp add: set_object_entries)
  show ?thesis
    using mj f by (auto simp: chordIntervals_p0_def Let_def split: option.splits)
qed

lemma shapes_start_at_root:
  "v \<in> snd ` set CHORD_SHAPES \<or> v \<in> snd ` set CHORD_SHAPES_p0 \<Longrightarrow> \<exists>us. v = 0 # us"
  by (auto simp: CHORD_SHAPES_def CHORD_SHAPES_p0_def)

lemma semitone_freq_0: "semitone_freq b 0 = b"
  by (simp add: semitone_freq_def)

lemma semitone_freq_ge: "0 < b \<Longrightarrow> b \<le> semitone_freq b s"
proof -
  assume "0 < b"
  have "1 \<le> (2::real) powr (real s / 12)" by (rule ge_one_powr_ge_zero) simp_all
  with \<open>0 < b\<close> show ?thesis by (simp add: semitone_freq_def)
qed

lemma Min_root_chord:
  assumes "0 < b"
  shows "Min (set (map (semitone_freq b) (0 # us))) = b"
proof (rule Min_eqI)
  show "finite (set (map (semitone_freq b) (0 # us)))" by simp
  show "b \<le> y" if "y \<in> set (map (semitone_freq b) (0 # us))" for y
    using that semitone_freq_ge [OF assms] by auto
  show "b \<in> set (map (semitone_freq b) (0 # us))" by (simp add: semitone_freq_0)
qed

text \<open>
  For every root of the note table the resolver returns the root frequency times
  \<open>2 powr (semitones / 12)\<close> for each interval of the chosen shape, a non-empty list
  whose least element is the root frequency itself.
\<close>

lemma getChordFrequencies_tabulated:
  assumes "rootMatch chordName = Some (rootNote, rest)" "rootNote \<noteq> ''Fb''"
  shows "\<exists>b. map_of NOTES rootNote = Some b
           \<and> getChordFrequencies chordName = map (semitone_freq b) (chordIntervals rest)
           \<and> getChordFrequencies chordName \<noteq> []
           \<and> Min (set (getChordFrequencies chordName)) = b
           \<and> getChordFrequencies_p0 chordName = map (semitone_freq b) (chordIntervals_p0 rest)
           \<and> getChordFrequencies_p0 chordName \<noteq> []
           \<and> Min (set (getChordFrequencies_p0 chordName)) = b"
proof -
  from rootMatch_root_cases [OF assms(1)] assms(2)
  obtain b where b: "map_of NOTES rootNote = Some b" "0 < b" by blast
  obtain us where us: "chordIntervals rest = 0 # us"
    using shapes_start_at_root chordIntervals_in_table by blast
  obtain us' where us': "chordIntervals_p0 rest = 0 # us'"
    using shapes_start_at_root chordIntervals_p0_in_table by blast
  have g: "getChordFrequencies chordName = map (semitone_freq b) (chordIntervals rest)"
    using assms(1) b(1) by (simp add: getChordFrequencies_def)
  have g': "getChordFrequencies_p0 chordName = map (semitone_freq b) (chordIntervals_p0 rest)"
    using assms(1) b(1) by (simp add: getChordFrequencies_p0_def)
  show ?thesis
    using b g g' Min_root_chord [OF b(2), of us] Min_root_chord [OF b(2), of us']
    unfolding us us' by auto
qed

text \<open>
  Claim C5 says this of every root made of a letter A to G and an optional accidental.
  The note table holds every such root, the enharmonic \<open>Cb\<close>, \<open>E#\<close> and \<open>B#\<close>
  included, except \<open>Fb\<close>: the chord symbols \<open>Fb\<close> and \<open>Fbmaj7\<close> match the pattern
  and resolve to the empty list in both engines.
\<close>

theorem C5_Fb_has_no_frequency:
  "rootMatch ''Fb'' = Some (''Fb'', []) \<and> map_of NOTES ''Fb'' = None
   \<and> getChordFrequencies ''Fb'' = [] \<and> getChordFrequencies_p0 ''Fb'' = []
   \<and> rootMatch ''Fbmaj7'' = Some (''Fb'', ''maj7'') \<and> getChordFrequencies ''Fbmaj7'' = []
   \<and> map_of NOTES ''Cb'' = Some 246.94 \<and> map_of NOTES ''E#'' = Some 349.23"
  by (simp add: getChordFrequencies_def getChordFrequencies_p0_def rootMatch_def NOTES_def
      is_line_terminator_def is_root_letter_def)

subsection \<open>stopAudio\<close>

lemma stopNode_idem: "stopNode (stopNode n) = stopNode n"
  by (cases "cls n") (auto simp: stopNode_def node_stop_def node_disconnect_def)

lemma stopNode_effect:
  "(is_source n \<longrightarrow> started n) \<Longrightarrow>
     \<not> connected (stopNode n) \<and> (is_source n \<longrightarrow> stopped (stopNode n))"
  by (cases "cls n") (auto simp: stopNode_def node_stop_def node_disconnect_def is_source_def)

lemma fold_stop_lookup:
  "fold (\<lambda>r h. case h r of None \<Rightarrow> h | Some n \<Rightarrow> h(r \<mapsto> stopNode n)) rs h r =
     (if r \<in> set rs then map_option stopNode (h r) else h r)"
proof (induction rs arbitrary: h)
  case Nil
  then show ?case by simp
next
  case (Cons x xs)
  show ?case
    by (cases "h x"; cases "h r")
       (auto simp: Cons.IH stopNode_idem)
qed

lemma store_stopAudio:
  "store (stopAudio e) r =
     (if r \<in> set (activeNodes e) then map_option stopNode (store e r) else store e r)"
  by (simp add: stopAudio_def fold_stop_lookup)

text \<open>
  Claim C8. From every state of the registry, \<open>stopAudio\<close> leaves the registry
  empty; a second call changes nothing more; a call on the empty registry changes
  nothing at all; and every registered node is disconnected afterwards, every registered
  source also stopped, provided the source had been started (the engines start each
  source before they register it; \<open>stop()\<close> on a source never started raises, and
  the \<open>catch\<close> then skips its \<open>disconnect()\<close>).
\<close>

theorem C8_stopAudio_idempotent:
  "activeNodes (stopAudio e) = []
   \<and> stopAudio (stopAudio e) = stopAudio e
   \<and> (activeNodes e = [] \<longrightarrow> stopAudio e = e)
   \<and> (\<forall>r \<in> set (activeNodes e). \<forall>n. store e r = Some n \<and> (is_source n \<longrightarrow> started n) \<longrightarrow>
        (\<exists>n'. store (stopAudio e) r = Some n' \<and> \<not> connected n'
               \<and> (is_source n \<longrightarrow> stopped n')))"
proof -
  have "activeNodes (stopAudio e) = []" by (simp add: stopAudio_def)
  moreover have "stopAudio (stopAudio e) = stopAudio e" by (simp add: stopAudio_def)
  moreover have "activeNodes e = [] \<longrightarrow> stopAudio e = e" by (simp add: stopAudio_def)
  moreover have "\<exists>n'. store (stopAudio e) r = Some n' \<and> \<not> connected n'
               \<and> (is_source n \<longrightarrow> stopped n')"
    if "r \<in> set (activeNodes e)" "store e r = Some n" "is_source n \<longrightarrow> started n" for r n
    using that stopNode_effect [of n] by (simp add: store_stopAudio)
  ultimately show ?thesis by blast
qed

text \<open>The claim on a registry of a running oscillator, a gain node and a buffer source.\<close>

theorem C8_witness:
  "activeNodes (stopAudio engine_playing) = []
   \<and> (\<exists>n'. store (stopAudio engine_playing) 0 = Some n' \<and> \<not> connected n' \<and> stopped n')
   \<and> (\<exists>n'. store (stopAudio engine_playing) 1 = Some n' \<and> \<not> connected n')"
proof -
  let ?osc = "\<lparr>cls = OscillatorNode, started = True, stopped = False, connected = True\<rparr>"
  let ?gain = "\<lparr>cls = OtherNode, started = False, stopped = False, connected = True\<rparr>"
  have h0: "0 \<in> set (activeNodes engine_playing)" "store engine_playing 0 = Some ?osc"
    "is_source ?osc \<longrightarrow> started ?osc" "is_source ?osc"
    by (simp_all add: engine_playing_def is_source_def)
  have h1: "1 \<in> set (activeNodes engine_playing)" "store engine_playing 1 = Some ?gain"
    "is_source ?gain \<longrightarrow> started ?gain"
    by (simp_all add: engine_playing_def is_source_def)
  from C8_stopAudio_idempotent [of engine_playing] h0 h1 show ?thesis by blast
qed

subsection \<open>Tempo\<close>

lemma digit_val_nonneg: "is_digit c \<Longrightarrow> 0 \<le> digit_val c"
proof -
  assume "is_digit c"
  then have "48 \<le> int (of_char c)" by (simp add: is_digit_def)
  then show ?thesis by (simp add: digit_val_def of_nat_of_char)
qed

lemma dropWhile_no_digit: "\<not> list_ex is_digit t \<Longrightarrow> dropWhile (\<lambda>c. \<not> is_digit c) t = []"
  by (simp add: list_ex_iff)

lemma digits_value_Nil: "digits_value [] = 0"
  by (simp add: digits_value_def)

lemma digits_value_zero: "digits_value ''0'' = 0"
  by (simp add: digits_value_def digit_val_def)

lemma tempoMatch_first_run:
  assumes "list_all is_digit ds" "ds \<noteq> []" "\<not> list_ex is_digit pre"
    and "post = [] \<or> \<not> is_digit (hd post)"
  shows "tempoMatch (pre @ ds @ post) = Some ds"
proof -
  from assms(1,2) have hd: "is_digit (hd ds)" by (cases ds) simp_all
  from assms(3) have "dropWhile (\<lambda>c. \<not> is_digit c) (pre @ ds @ post) = ds @ post"
    using hd assms(2)
    by (cases ds) (auto simp: list_ex_iff dropWhile_append)
  moreover have "takeWhile is_digit (ds @ post) = ds"
    using assms(1,4) by (cases post) (auto simp: list_all_iff takeWhile_append)
  ultimately show ?thesis using assms(2) by (simp add: tempoMatch_def)
qed

lemma parseInt_leading_digits:
  assumes "list_all is_digit ds" "post = [] \<or> \<not> is_digit (hd post)"
    and "0 < digits_value ds" "safe_integer (digits_value ds)"
  shows "parseInt (ds @ post) = Integer (digits_value ds)"
proof -
  from assms(3) have ne: "ds \<noteq> []" and nz: "ds \<noteq> ''0''"
    by (auto simp: digits_value_Nil digits_value_zero)
  obtain d ds' where ds: "ds = d # ds'" using ne by (cases ds) auto
  with assms(1) have d: "is_digit d" by simp
  then have nsp: "\<not> is_space d" and nsign: "d \<noteq> CHR ''-''" "d \<noteq> CHR ''+''"
    by (auto simp: is_digit_def is_space_def)
  have nohex: "take 2 (ds @ post) \<noteq> ''0x''" "take 2 (ds @ post) \<noteq> ''0X''"
  proof -
    show "take 2 (ds @ post) \<noteq> ''0x''"
    proof (cases ds')
      case Nil
      with ds nz show ?thesis by (cases post) auto
    next
      case (Cons e es)
      with ds assms(1) have "is_digit e" by simp
      then have "e \<noteq> CHR ''x''" by (auto simp: is_digit_def)
      with ds Cons show ?thesis by simp
    qed
    show "take 2 (ds @ post) \<noteq> ''0X''"
    proof (cases ds')
      case Nil
      with ds nz show ?thesis by (cases post) auto
    next
      case (Cons e es)
      with ds assms(1) have "is_digit e" by simp
      then have "e \<noteq> CHR ''X''" by (auto simp: is_digit_def)
      with ds Cons show ?thesis by simp
    qed
  qed
  have tw: "takeWhile is_digit (ds @ post) = ds"
    using assms(1,2) by (cases post) (auto simp: list_all_iff takeWhile_append)
  have s1: "dropWhile is_space (ds @ post) = ds @ post" using ds nsp by simp
  have t1: "take 1 (ds @ post) = [d]" using ds by simp
  show ?thesis
    unfolding parseInt_def s1 Let_def t1
    using nsign nohex tw ne assms(4) by simp
qed

text \<open>
  Claim C9, amended. Live engine: a tempo without a decimal digit gives the default
  BPM 100; otherwise the first run of decimal digits, wherever it stands in the
  string, gives the BPM, which is its value when that is positive and a safe integer.
  Export engine: the BPM is the leading integer read by \<open>parseInt\<close> when that is
  positive (a run of decimal digits at the start of the string is read as its decimal
  value when that is positive and a safe integer), and the default 90 when there is no
  leading integer or it is zero; the BPM is never zero. In both engines a positive
  BPM gives a positive beat duration. Nothing is said of the tempos whose number is
  zero in the live engine, negative in the export engine, or not a safe integer.
\<close>

theorem C9_tempo_fallback_amended:
  "(\<not> list_ex is_digit t \<longrightarrow> bpm_of_tempo t = Some 100)
   \<and> (list_all is_digit ds \<and> \<not> list_ex is_digit pre
        \<and> (post = [] \<or> \<not> is_digit (hd post))
        \<and> 0 < digits_value ds \<and> safe_integer (digits_value ds)
      \<longrightarrow> bpm_of_tempo (pre @ ds @ post) = Some (digits_value ds))
   \<and> (bpm_of_tempo t = Some bpm \<and> 0 < bpm
      \<longrightarrow> (\<exists>s. secondsPerBeat bpm = Some s \<and> 0 < s))
   \<and> (parseInt t = NaN \<or> parseInt t = Integer 0 \<longrightarrow> bpm_p0 t = Some 90)
   \<and> (parseInt t = Integer n \<and> 0 < n \<longrightarrow> bpm_p0 t = Some n)
   \<and> (list_all is_digit ds \<and> (post = [] \<or> \<not> is_digit (hd post))
        \<and> 0 < digits_value ds \<and> safe_integer (digits_value ds)
      \<longrightarrow> parseInt (ds @ post) = Integer (digits_value ds))
   \<and> bpm_p0 t \<noteq> Some 0
   \<and> (bpm_p0 t = Some bpm \<and> 0 < bpm \<longrightarrow> 0 < barDur bpm / 4)"
proof -
  have a: "\<not> list_ex is_digit t \<longrightarrow> bpm_of_tempo t = Some 100"
    by (simp add: bpm_of_tempo_def tempoMatch_def dropWhile_no_digit)
  have b: "list_all is_digit ds \<and> \<not> list_ex is_digit pre
        \<and> (post = [] \<or> \<not> is_digit (hd post))
        \<and> 0 < digits_value ds \<and> safe_integer (digits_value ds)
      \<longrightarrow> bpm_of_tempo (pre @ ds @ post) = Some (digits_value ds)"
  proof
    assume h: "list_all is_digit ds \<and> \<not> list_ex is_digit pre
        \<and> (post = [] \<or> \<not> is_digit (hd post))
        \<and> 0 < digits_value ds \<and> safe_integer (digits_value ds)"
    then have "ds \<noteq> []" by (auto simp: digits_value_Nil)
    with h have "tempoMatch (pre @ ds @ post) = Some ds"
      by (intro tempoMatch_first_run) blast+
    with h show "bpm_of_tempo (pre @ ds @ post) = Some (digits_value ds)"
      by (simp add: bpm_of_tempo_def)
  qed
  have c: "bpm_of_tempo t = Some bpm \<and> 0 < bpm
      \<longrightarrow> (\<exists>s. secondsPerBeat bpm = Some s \<and> 0 < s)"
    by (simp add: secondsPerBeat_def)
  have d: "parseInt t = NaN \<or> parseInt t = Integer 0 \<longrightarrow> bpm_p0 t = Some 90"
    by (auto simp: bpm_p0_def)
  have e: "parseInt t = Integer n \<and> 0 < n \<longrightarrow> bpm_p0 t = Some n"
    by (auto simp: bpm_p0_def)
  have f: "list_all is_digit ds \<and> (post = [] \<or> \<not> is_digit (hd post))
        \<and> 0 < digits_value ds \<and> safe_integer (digits_value ds)
      \<longrightarrow> parseInt (ds @ post) = Integer (digits_value ds)"
    using parseInt_leading_digits [of ds post] by blast
  have g: "bpm_p0 t \<noteq> Some 0" by (auto simp: bpm_p0_def split: parsed.splits)
  have h: "bpm_p0 t = Some bpm \<and> 0 < bpm \<longrightarrow> 0 < barDur bpm / 4"
    by (simp add: barDur_def)
  from a b c d e f g h show ?thesis by blast
qed

text \<open>
  Claim C9 as stated fails in the live engine: the tempo \<open>ca. 120\<close> has no leading
  integer (\<open>parseInt\<close> gives \<open>NaN\<close>), yet the engine does not fall back to its default
  of 100 but plays at 120.
\<close>

theorem C9_counterexample:
  "parseInt ''ca. 120'' = NaN \<and> bpm_of_tempo ''ca. 120'' = Some 120
   \<and> bpm_of_tempo [] = Some 100"
  by code_simp

text \<open>The amended claim at the tempos \<open>fast\<close>, \<open>ca. 120 BPM\<close> and \<open>120 BPM\<close>.\<close>

theorem C9_witness:
  "bpm_of_tempo ''fast'' = Some 100 \<and> bpm_of_tempo ''ca. 120 BPM'' = Some 120
   \<and> (\<exists>s. secondsPerBeat 120 = Some s \<and> 0 < s)
   \<and> bpm_p0 ''fast'' = Some 90 \<and> parseInt ''120 BPM'' = Integer 120
   \<and> bpm_p0 ''120 BPM'' = Some 120 \<and> 0 < barDur 120 / 4"
proof -
  have h1: "\<not> list_ex is_digit ''fast''" by (simp add: is_digit_def)
  have dv: "digits_value ''120'' = 120" by code_simp
  have h2: "list_all is_digit ''120'' \<and> \<not> list_ex is_digit ''ca. ''
      \<and> ('' BPM'' = [] \<or> \<not> is_digit (hd '' BPM''))
      \<and> 0 < digits_value ''120'' \<and> safe_integer (digits_value ''120'')"
    by (simp add: is_digit_def dv safe_integer_def)
  have h4: "parseInt ''fast'' = NaN \<or> parseInt ''fast'' = Integer 0" by code_simp
  from C9_tempo_fallback_amended [of "''fast''" "''120''" "''ca. ''" "'' BPM''" 120 120] h1 h4
  have r1: "bpm_of_tempo ''fast'' = Some 100" "bpm_p0 ''fast'' = Some 90" by blast+
  from C9_tempo_fallback_amended [of "''ca. 120 BPM''" "''120''" "''ca. ''" "'' BPM''" 120 120]
    h2 dv
  have r2: "bpm_of_tempo ''ca. 120 BPM'' = Some 120" by auto
  from C9_tempo_fallback_amended [of "''ca. 120 BPM''" "''120''" "''ca. ''" "'' BPM''" 120 120] r2
  have r3: "\<exists>s. secondsPerBeat 120 = Some s \<and> 0 < s" by simp
  from C9_tempo_fallback_amended [of "''120 BPM''" "''120''" "[]" "'' BPM''" 120 120] h2 dv
  have r4: "parseInt ''120 BPM'' = Integer 120" by auto
  from C9_tempo_fallback_amended [of "''120 BPM''" "''120''" "[]" "'' BPM''" 120 120] r4
  have r5: "bpm_p0 ''120 BPM'' = Some 120" by simp
  from C9_tempo_fallback_amended [of "''120 BPM''" "''120''" "[]" "'' BPM''" 120 120] r5
  have r6: "0 < barDur 120 / 4" by simp
  from r1 r2 r3 r4 r5 r6 show ?thesis by blast
qed

subsection \<open>Offline export length\<close>

lemma bpm_p0_120: "bpm_p0 ''120'' = Some 120"
  by code_simp

lemma chordsInLine_p0_C: "chordsInLine_p0 ''C'' = [''C'']"
  by code_simp

lemma totalDuration_one_chord:
  "totalDuration (song_of pop ''120'' VERSE [''C'']) = Some (11 / 2)"
  by (simp add: totalDuration_def totalChords_def song_of_def bpm_p0_120 chordsInLine_p0_C
      barDur_def)

lemma duration_one_chord:
  "map_option duration_p0 (renderMusicToContext (song_of pop ''120'' VERSE [''C'']) False 0)
     = Some 2"
  by (simp add: renderMusicToContext_def song_of_def bpm_p0_120 chordsInLine_p0_C barDur_def
      sectionStep_p0_def lineStep_p0_def chordStep_p0_def Let_def)

text \<open>
  Claim C1 says that the offline buffer lasts the cursor advance plus the tail of 5
  seconds. \<open>renderSongToBlob\<close> counts a quarter of a bar for every chord, whatever
  the number of chords in its line: for a song at 120 BPM with the single chord line
  \<open>C\<close> the cursor advances by one bar of 2 seconds, and the buffer lasts 5.5 seconds
  (242550 sample frames), not 7.
\<close>

theorem C1_offline_length_one_chord:
  "map_option duration_p0 (renderMusicToContext (song_of pop ''120'' VERSE [''C'']) False 0)
     = Some 2
   \<and> totalDuration (song_of pop ''120'' VERSE [''C'']) = Some (11 / 2)
   \<and> offlineLength (song_of pop ''120'' VERSE [''C'']) = Some 242550
   \<and> totalDuration (song_of pop ''120'' VERSE [''C''])
       \<noteq> map_option (\<lambda>r. duration_p0 r + 5)
           (renderMusicToContext (song_of pop ''120'' VERSE [''C'']) False 0)"
proof -
  from duration_one_chord obtain r
    where r: "renderMusicToContext (song_of pop ''120'' VERSE [''C'']) False 0 = Some r"
      "duration_p0 r = 2"
    by auto
  show ?thesis
    by (simp add: offlineLength_def totalDuration_one_chord r)
qed

subsection \<open>WAV encoder\<close>

lemma length_sampleBytes: "length (sampleBytes channel offset) = 2"
  by (simp add: sampleBytes_def setInt16_def setUint16_def Let_def)

lemma length_frameBytes: "length (frameBytes b offset) = 2 * numberOfChannels b"
proof -
  have "length (concat (map (\<lambda>channel. sampleBytes channel offset) cs)) = 2 * length cs" for cs
    by (induction cs) (simp_all add: length_sampleBytes)
  then show ?thesis by (simp add: frameBytes_def numberOfChannels_def)
qed

lemma length_wavHeader: "length (wavHeader b) = 44"
  by (simp add: wavHeader_def setUint32_def setUint16_def Let_def)

lemma frameBytes_no_channel: "numberOfChannels b = 0 \<Longrightarrow> frameBytes b offset = []"
  by (simp add: frameBytes_def numberOfChannels_def)

text \<open>The loop writes the remaining frames and ends: induction on their number.\<close>

lemma wavFrames_run:
  assumes "length out = 44 + offset * numberOfChannels b * 2" "offset \<le> F"
  shows "wavFrames b (int F * int (numberOfChannels b) * 2 + 44) offset out =
           Some (out @ concat (map (frameBytes b) [offset ..< F]))"
  using assms
proof (induction "F - offset" arbitrary: offset out)
  case 0
  then have "offset = F" by simp
  with "0.prems"(1) show ?case
    by (subst wavFrames.simps) simp
next
  case (Suc d)
  then have lt: "offset < F" by simp
  show ?case
  proof (cases "numberOfChannels b = 0")
    case True
    with Suc.prems(1) show ?thesis
      by (subst wavFrames.simps) (simp add: frameBytes_no_channel)
  next
    case False
    have "offset * numberOfChannels b < F * numberOfChannels b"
      using lt False by simp
    then have "int (offset * numberOfChannels b) < int (F * numberOfChannels b)"
      by (simp only: of_nat_less_iff)
    moreover have "int (length out) = 44 + int (offset * numberOfChannels b) * 2"
      using Suc.prems(1) by simp
    ultimately have cond: "int (length out) < int F * int (numberOfChannels b) * 2 + 44"
      by simp
    have d: "d = F - (offset + 1)" using Suc.hyps(2) by simp
    have len: "length (out @ frameBytes b offset) = 44 + (offset + 1) * numberOfChannels b * 2"
      using Suc.prems(1) by (simp add: length_frameBytes algebra_simps)
    have "wavFrames b (int F * int (numberOfChannels b) * 2 + 44) (offset + 1)
            (out @ frameBytes b offset)
          = Some ((out @ frameBytes b offset) @ concat (map (frameBytes b) [offset + 1 ..< F]))"
      using lt by (intro Suc.hyps(1) [OF d len]) simp
    with cond lt show ?thesis
      by (subst wavFrames.simps) (simp add: upt_conv_Cons)
  qed
qed

lemma audioBufferToWav_eq:
  "audioBufferToWav b =
     Some (wavHeader b @ concat (map (frameBytes b) [0 ..< buf_length b]))"
  unfolding audioBufferToWav_def Let_def
  by (rule wavFrames_run) (simp_all add: length_wavHeader)

lemma length_frames:
  "length (concat (map (frameBytes b) [0 ..< n])) = n * (2 * numberOfChannels b)"
  by (induction n) (simp_all add: length_frameBytes)


lemma byte_split: "0 \<le> m \<Longrightarrow> (x::int) mod (256 * m) = x mod 256 + 256 * (x div 256 mod m)"
  using zmod_zmult2_eq [of m x 256] by simp

lemma le_value_setUint16: "le_value (setUint16 x) = x mod 65536"
proof -
  have "x mod 65536 = x mod 256 + 256 * (x div 256 mod 256)"
    using byte_split [of 256 x] by simp
  then show ?thesis by (simp add: le_value_def setUint16_def)
qed

lemma le_value_setUint32: "le_value (setUint32 x) = x mod 4294967296"
proof -
  have d2: "x div 65536 = x div 256 div 256"
    using zdiv_zmult2_eq [of 256 x 256] by simp
  have d3: "x div 16777216 = x div 256 div 256 div 256"
    using zdiv_zmult2_eq [of 256 x 65536] d2 by simp
  have e1: "x mod 4294967296 = x mod 256 + 256 * (x div 256 mod 16777216)"
    using byte_split [of 16777216 x] by simp
  have e2: "x div 256 mod 16777216 = x div 256 mod 256 + 256 * (x div 256 div 256 mod 65536)"
    using byte_split [of 65536 "x div 256"] by simp
  have e3: "x div 256 div 256 mod 65536
      = x div 256 div 256 mod 256 + 256 * (x div 256 div 256 div 256 mod 256)"
    using byte_split [of 256 "x div 256 div 256"] by simp
  have "le_value (setUint32 x)
      = x mod 256 + 256 * (x div 256 mod 256
          + 256 * (x div 256 div 256 mod 256 + 256 * (x div 256 div 256 div 256 mod 256)))"
    unfolding le_value_def setUint32_def d2 d3 by simp
  also have "\<dots> = x mod 4294967296"
    unfolding e1 e2 e3 by (rule refl)
  finally show ?thesis .
qed

lemma length_setUint16: "length (setUint16 x) = 2"
  by (simp add: setUint16_def)

lemma length_setUint32: "length (setUint32 x) = 4"
  by (simp add: setUint32_def)

lemma wavHeader_blocks:
  "wavHeader b =
     setUint32 0x46464952
     @ setUint32 (int (buf_length b) * int (numberOfChannels b) * 2 + 44 - 8)
     @ setUint32 0x45564157 @ setUint32 0x20746d66 @ setUint32 16 @ setUint16 1
     @ setUint16 (int (numberOfChannels b))
     @ setUint32 (int (sampleRate b))
     @ setUint32 (int (sampleRate b) * 2 * int (numberOfChannels b))
     @ setUint16 (int (numberOfChannels b) * 2) @ setUint16 16 @ setUint32 0x61746164
     @ setUint32 (int (buf_length b) * int (numberOfChannels b) * 2 + 44 - 40 - 4)"
  unfolding wavHeader_def Let_def
  by (simp only: length_append length_setUint32 length_setUint16 append_assoc)
     (simp add: length_setUint32 length_setUint16)

text \<open>The fields of a file made of thirteen header blocks of the given lengths.\<close>

lemma wav_fields:
  assumes "wav = a0 @ a1 @ a2 @ a3 @ a4 @ a5 @ a6 @ a7 @ a8 @ a9 @ a10 @ a11 @ a12 @ frames"
    and "length a0 = 4" "length a1 = 4" "length a2 = 4" "length a3 = 4" "length a4 = 4"
      "length a5 = 2" "length a6 = 2" "length a7 = 4" "length a8 = 4" "length a9 = 2"
      "length a10 = 2" "length a11 = 4" "length a12 = 4"
  shows "field 0 4 wav = a0" "field 4 4 wav = a1" "field 8 4 wav = a2" "field 12 4 wav = a3"
    "field 16 4 wav = a4" "field 20 2 wav = a5" "field 22 2 wav = a6" "field 24 4 wav = a7"
    "field 28 4 wav = a8" "field 32 2 wav = a9" "field 34 2 wav = a10" "field 36 4 wav = a11"
    "field 40 4 wav = a12" "drop 44 wav = frames"
  using assms(2-) unfolding assms(1) field_def by simp_all

lemma chunk_ids:
  "setUint32 0x46464952 = ascii ''RIFF''" "setUint32 0x45564157 = ascii ''WAVE''"
  "setUint32 0x20746d66 = ascii ''fmt ''" "setUint32 0x61746164 = ascii ''data''"
  by (simp_all add: setUint32_def ascii_def)

lemma js_trunc_sample_range:
  assumes "s = max (- 1) (min 1 x)"
  shows "- 32768 \<le> js_trunc (if s < 0 then s * 32768 else s * 32767)"
    and "js_trunc (if s < 0 then s * 32768 else s * 32767) \<le> 32767"
proof -
  have r: "- 1 \<le> s" "s \<le> 1" using assms by auto
  show "- 32768 \<le> js_trunc (if s < 0 then s * 32768 else s * 32767)"
  proof (cases "s < 0")
    case True
    with r have "- (s * 32768) \<le> 32768" by simp
    then have "\<lfloor>- (s * 32768)\<rfloor> \<le> 32768" by (simp add: floor_le_iff)
    moreover from True have "js_trunc (if s < 0 then s * 32768 else s * 32767)
        = - \<lfloor>- (s * 32768)\<rfloor>" by (simp add: js_trunc_def mult_neg_pos)
    ultimately show ?thesis by linarith
  next
    case False
    then have "0 \<le> s * 32767" by simp
    then have "0 \<le> \<lfloor>s * 32767\<rfloor>" by simp
    with False show ?thesis by (simp add: js_trunc_def not_less)
  qed
  show "js_trunc (if s < 0 then s * 32768 else s * 32767) \<le> 32767"
  proof (cases "s < 0")
    case True
    then have "0 \<le> - (s * 32768)" by simp
    then have "0 \<le> \<lfloor>- (s * 32768)\<rfloor>" by (simp only: zero_le_floor)
    moreover from True have "js_trunc (if s < 0 then s * 32768 else s * 32767)
        = - \<lfloor>- (s * 32768)\<rfloor>" by (simp add: js_trunc_def mult_neg_pos)
    ultimately show ?thesis by linarith
  next
    case False
    with r have "s * 32767 \<le> 32767" by simp
    then have "\<lfloor>s * 32767\<rfloor> \<le> 32767" by (simp add: floor_le_iff)
    with False show ?thesis by (simp add: js_trunc_def not_less)
  qed
qed

lemma renderedBuffer_format:
  assumes "renderedBuffer song samples = Some rb"
  shows "numberOfChannels rb = 2" "sampleRate rb = 44100"
    "\<forall>ch \<in> set (channelData rb). length ch = buf_length rb"
    "offlineLength song = Some (int (buf_length rb))"
  using assms
  by (auto simp: renderedBuffer_def numberOfChannels_def split: if_splits option.splits)






text \<open>
  Claim C10. For every audio buffer the encoder ends and returns the 44 header bytes
  followed by the sample frames, channels interleaved within each frame. The chunk
  identifiers are \<open>RIFF\<close>, \<open>WAVE\<close>, \<open>fmt \<close> and \<open>data\<close>; the format chunk has size 16,
  format tag 1 and 16 bits per sample; the channel count, sample rate, byte rate
  (rate times channels times 2) and block align (channels times 2) fields hold these
  values, and the two size fields hold the file length less 8 and less 44, whenever
  the value fits its 16 or 32 bits. Every sample is clamped to \<open>[-1, 1]\<close>, scaled by
  32768 or 32767, truncated, and stored as a signed 16-bit value. The buffer of the
  offline export has two channels at 44100 Hz.
\<close>

theorem C10_wav_well_formed:
  "\<exists>wav. audioBufferToWav b = Some wav
     \<and> length wav = 44 + buf_length b * numberOfChannels b * 2
     \<and> field 0 4 wav = ascii ''RIFF'' \<and> field 8 4 wav = ascii ''WAVE''
     \<and> field 12 4 wav = ascii ''fmt '' \<and> field 36 4 wav = ascii ''data''
     \<and> le_value (field 16 4 wav) = 16 \<and> le_value (field 20 2 wav) = 1
     \<and> le_value (field 34 2 wav) = 16
     \<and> (length wav < 2 ^ 32 \<longrightarrow>
          le_value (field 4 4 wav) = int (length wav) - 8
          \<and> le_value (field 40 4 wav) = int (length wav) - 44)
     \<and> (numberOfChannels b < 2 ^ 15 \<longrightarrow>
          le_value (field 22 2 wav) = int (numberOfChannels b)
          \<and> le_value (field 32 2 wav) = int (numberOfChannels b) * 2)
     \<and> (sampleRate b < 2 ^ 32 \<longrightarrow> le_value (field 24 4 wav) = int (sampleRate b))
     \<and> (sampleRate b * numberOfChannels b * 2 < 2 ^ 32 \<longrightarrow>
          le_value (field 28 4 wav) = int (sampleRate b) * int (numberOfChannels b) * 2)
     \<and> drop 44 wav =
          concat (map (\<lambda>offset. concat (map (\<lambda>channel. sampleBytes channel offset)
                                          (channelData b)))
                    [0 ..< buf_length b])
     \<and> (\<forall>channel offset. offset < length channel \<longrightarrow>
          (\<exists>s v. s = max (- 1) (min 1 (channel ! offset))
                \<and> v = js_trunc (if s < 0 then s * 32768 else s * 32767)
                \<and> - 32768 \<le> v \<and> v \<le> 32767
                \<and> sampleBytes channel offset = setUint16 v
                \<and> le_value (sampleBytes channel offset) = v mod 65536))
     \<and> (\<forall>song samples rb. renderedBuffer song samples = Some rb \<longrightarrow>
          numberOfChannels rb = 2 \<and> sampleRate rb = 44100
          \<and> (\<forall>ch \<in> set (channelData rb). length ch = buf_length rb))"
proof -
  define frames where "frames = concat (map (frameBytes b) [0 ..< buf_length b])"
  define wav where "wav = wavHeader b @ frames"
  define n where "n = int (numberOfChannels b)"
  define L where "L = int (buf_length b) * n * 2 + 44"
  define r where "r = int (sampleRate b)"
  have w: "audioBufferToWav b = Some wav"
    by (simp add: wav_def frames_def audioBufferToWav_eq)
  have len: "length wav = 44 + buf_length b * numberOfChannels b * 2"
    by (simp add: wav_def frames_def length_wavHeader length_frames)
  then have lenL: "int (length wav) = L" by (simp add: L_def n_def)
  have hdr: "wav =
      setUint32 0x46464952 @ setUint32 (L - 8)
      @ setUint32 0x45564157 @ setUint32 0x20746d66 @ setUint32 16 @ setUint16 1
      @ setUint16 n @ setUint32 r @ setUint32 (r * 2 * n)
      @ setUint16 (n * 2) @ setUint16 16 @ setUint32 0x61746164
      @ setUint32 (L - 40 - 4) @ frames"
    unfolding wav_def n_def L_def r_def by (simp only: wavHeader_blocks append_assoc)
  note f = wav_fields [OF hdr length_setUint32 length_setUint32 length_setUint32
      length_setUint32 length_setUint32 length_setUint16 length_setUint16 length_setUint32
      length_setUint32 length_setUint16 length_setUint16 length_setUint32 length_setUint32]
  have ids: "field 0 4 wav = ascii ''RIFF''" "field 8 4 wav = ascii ''WAVE''"
    "field 12 4 wav = ascii ''fmt ''" "field 36 4 wav = ascii ''data''"
    by (simp_all only: f chunk_ids)
  have cst: "le_value (field 16 4 wav) = 16" "le_value (field 20 2 wav) = 1"
    "le_value (field 34 2 wav) = 16"
    by (simp_all add: f le_value_setUint32 le_value_setUint16)
  have f4: "le_value (field 4 4 wav) = (L - 8) mod 4294967296"
    by (simp only: f le_value_setUint32)
  have f40: "le_value (field 40 4 wav) = (L - 40 - 4) mod 4294967296"
    by (simp only: f le_value_setUint32)
  have f22: "le_value (field 22 2 wav) = n mod 65536"
    by (simp only: f le_value_setUint16)
  have f32: "le_value (field 32 2 wav) = (n * 2) mod 65536"
    by (simp only: f le_value_setUint16)
  have f24: "le_value (field 24 4 wav) = r mod 4294967296"
    by (simp only: f le_value_setUint32)
  have f28: "le_value (field 28 4 wav) = (r * 2 * n) mod 4294967296"
    by (simp only: f le_value_setUint32)
  have L44: "44 \<le> L" by (simp add: L_def n_def)
  have sizes: "length wav < 2 ^ 32 \<longrightarrow>
      le_value (field 4 4 wav) = int (length wav) - 8
      \<and> le_value (field 40 4 wav) = int (length wav) - 44"
  proof
    assume "length wav < 2 ^ 32"
    then have "L < 4294967296" using lenL by simp
    with L44 show "le_value (field 4 4 wav) = int (length wav) - 8
      \<and> le_value (field 40 4 wav) = int (length wav) - 44"
      by (simp add: f4 f40 lenL)
  qed
  have chans: "numberOfChannels b < 2 ^ 15 \<longrightarrow>
      le_value (field 22 2 wav) = int (numberOfChannels b)
      \<and> le_value (field 32 2 wav) = int (numberOfChannels b) * 2"
  proof
    assume "numberOfChannels b < 2 ^ 15"
    then have "n < 32768" "0 \<le> n" by (simp_all add: n_def)
    then show "le_value (field 22 2 wav) = int (numberOfChannels b)
      \<and> le_value (field 32 2 wav) = int (numberOfChannels b) * 2"
      by (simp add: f22 f32 n_def [symmetric])
  qed
  have rate: "sampleRate b < 2 ^ 32 \<longrightarrow> le_value (field 24 4 wav) = int (sampleRate b)"
  proof
    assume "sampleRate b < 2 ^ 32"
    then have "r < 4294967296" "0 \<le> r" by (simp_all add: r_def)
    then show "le_value (field 24 4 wav) = int (sampleRate b)"
      by (simp add: f24 r_def [symmetric])
  qed
  have brate: "sampleRate b * numberOfChannels b * 2 < 2 ^ 32 \<longrightarrow>
      le_value (field 28 4 wav) = int (sampleRate b) * int (numberOfChannels b) * 2"
  proof
    assume "sampleRate b * numberOfChannels b * 2 < 2 ^ 32"
    then have "int (sampleRate b * numberOfChannels b * 2) < 4294967296"
      by (simp only: of_nat_less_iff [symmetric, where 'a = int]) simp
    then have "r * 2 * n < 4294967296" "0 \<le> r * 2 * n"
      by (simp_all add: r_def n_def mult.commute mult.left_commute)
    then show "le_value (field 28 4 wav) = int (sampleRate b) * int (numberOfChannels b) * 2"
      by (simp add: f28) (simp add: r_def n_def)
  qed
  have data: "drop 44 wav =
      concat (map (\<lambda>offset. concat (map (\<lambda>channel. sampleBytes channel offset)
                                      (channelData b)))
                [0 ..< buf_length b])"
    by (simp only: f frames_def frameBytes_def [abs_def])
  have smp: "\<exists>s v. s = max (- 1) (min 1 (channel ! offset))
                \<and> v = js_trunc (if s < 0 then s * 32768 else s * 32767)
                \<and> - 32768 \<le> v \<and> v \<le> 32767
                \<and> sampleBytes channel offset = setUint16 v
                \<and> le_value (sampleBytes channel offset) = v mod 65536"
    if "offset < length channel" for channel offset
  proof -
    define s where "s = max (- 1) (min 1 (channel ! offset))"
    define v where "v = js_trunc (if s < 0 then s * 32768 else s * 32767)"
    have lo: "- 32768 \<le> v" unfolding v_def by (rule js_trunc_sample_range(1) [OF s_def])
    have hi: "v \<le> 32767" unfolding v_def by (rule js_trunc_sample_range(2) [OF s_def])
    have sb: "sampleBytes channel offset = setUint16 v"
      unfolding s_def v_def sampleBytes_def setInt16_def Let_def using that
      by (simp only: if_True)
    have lv: "le_value (sampleBytes channel offset) = v mod 65536"
      by (simp only: sb le_value_setUint16)
    from s_def v_def lo hi sb lv show ?thesis by (intro exI conjI)
  qed
  have tail: "\<forall>channel offset. offset < length channel \<longrightarrow>
          (\<exists>s v. s = max (- 1) (min 1 (channel ! offset))
                \<and> v = js_trunc (if s < 0 then s * 32768 else s * 32767)
                \<and> - 32768 \<le> v \<and> v \<le> 32767
                \<and> sampleBytes channel offset = setUint16 v
                \<and> le_value (sampleBytes channel offset) = v mod 65536)"
    using smp by blast
  have rb: "\<forall>song samples rb. renderedBuffer song samples = Some rb \<longrightarrow>
          numberOfChannels rb = 2 \<and> sampleRate rb = 44100
          \<and> (\<forall>ch \<in> set (channelData rb). length ch = buf_length rb)"
    using renderedBuffer_format(1,2,3) by blast
  note parts = w len ids cst sizes chans rate brate data tail rb
  show ?thesis by (rule exI [of _ wav]) (intro conjI parts)
qed



text \<open>The claim on a stereo buffer of two frames and on the export of a one-chord song.\<close>

theorem C10_witness:
  "\<exists>wav. audioBufferToWav buffer_2x2 = Some wav \<and> length wav = 52
     \<and> le_value (field 4 4 wav) = 44 \<and> le_value (field 40 4 wav) = 8
     \<and> le_value (field 22 2 wav) = 2 \<and> le_value (field 32 2 wav) = 4
     \<and> le_value (field 24 4 wav) = 44100 \<and> le_value (field 28 4 wav) = 176400
     \<and> sampleBytes [0.5, - 1.5] 1 = setUint16 (- 32768)
     \<and> (\<exists>rb. renderedBuffer (song_of pop ''120'' VERSE [''C'']) (\<lambda>c i. 0) = Some rb
            \<and> numberOfChannels rb = 2 \<and> sampleRate rb = 44100)"
proof -
  have p: "numberOfChannels buffer_2x2 = 2" "buf_length buffer_2x2 = 2"
    "sampleRate buffer_2x2 = 44100"
    by (simp_all add: buffer_2x2_def numberOfChannels_def)
  from C10_wav_well_formed [of buffer_2x2] obtain wav where
    w: "audioBufferToWav buffer_2x2 = Some wav"
    and len: "length wav = 44 + buf_length buffer_2x2 * numberOfChannels buffer_2x2 * 2"
    and sizes: "length wav < 2 ^ 32 \<longrightarrow>
          le_value (field 4 4 wav) = int (length wav) - 8
          \<and> le_value (field 40 4 wav) = int (length wav) - 44"
    and chans: "numberOfChannels buffer_2x2 < 2 ^ 15 \<longrightarrow>
          le_value (field 22 2 wav) = int (numberOfChannels buffer_2x2)
          \<and> le_value (field 32 2 wav) = int (numberOfChannels buffer_2x2) * 2"
    and rate: "sampleRate buffer_2x2 < 2 ^ 32 \<longrightarrow>
          le_value (field 24 4 wav) = int (sampleRate buffer_2x2)"
    and brate: "sampleRate buffer_2x2 * numberOfChannels buffer_2x2 * 2 < 2 ^ 32 \<longrightarrow>
          le_value (field 28 4 wav)
            = int (sampleRate buffer_2x2) * int (numberOfChannels buffer_2x2) * 2"
    and smp: "\<forall>channel offset. offset < length channel \<longrightarrow>
          (\<exists>s v. s = max (- 1) (min 1 (channel ! offset))
                \<and> v = js_trunc (if s < 0 then s * 32768 else s * 32767)
                \<and> - 32768 \<le> v \<and> v \<le> 32767
                \<and> sampleBytes channel offset = setUint16 v
                \<and> le_value (sampleBytes channel offset) = v mod 65536)"
    and rb: "\<forall>song samples rb. renderedBuffer song samples = Some rb \<longrightarrow>
          numberOfChannels rb = 2 \<and> sampleRate rb = 44100
          \<and> (\<forall>ch \<in> set (channelData rb). length ch = buf_length rb)"
    by (elim exE conjE) (rule that)
  have l52: "length wav = 52" using len by (simp add: p)
  have a: "le_value (field 4 4 wav) = 44" "le_value (field 40 4 wav) = 8"
    using sizes by (simp_all add: l52)
  have b: "le_value (field 22 2 wav) = 2" "le_value (field 32 2 wav) = 4"
    using chans by (simp_all add: p)
  have c: "le_value (field 24 4 wav) = 44100" using rate by (simp add: p)
  have d: "le_value (field 28 4 wav) = 176400" using brate by (simp add: p)
  have "(1::nat) < length [0.5, - 1.5 :: real]" by simp
  with smp obtain s v where s: "s = max (- 1) (min 1 ([0.5, - 1.5 :: real] ! 1))"
    and v: "v = js_trunc (if s < 0 then s * 32768 else s * 32767)"
    and sb: "sampleBytes [0.5, - 1.5] 1 = setUint16 v"
    by blast
  from s have "s = - 1" by simp
  with v have "v = - 32768" by (simp add: js_trunc_def)
  with sb have e: "sampleBytes [0.5, - 1.5] 1 = setUint16 (- 32768)" by simp
  have "offlineLength (song_of pop ''120'' VERSE [''C'']) = Some 242550"
    by (simp add: offlineLength_def totalDuration_one_chord)
  then obtain rb' where r: "renderedBuffer (song_of pop ''120'' VERSE [''C'']) (\<lambda>c i. 0) = Some rb'"
    by (simp add: renderedBuffer_def)
  with rb have "numberOfChannels rb' = 2 \<and> sampleRate rb' = 44100" by blast
  with r have g: "\<exists>rb. renderedBuffer (song_of pop ''120'' VERSE [''C'']) (\<lambda>c i. 0) = Some rb
            \<and> numberOfChannels rb = 2 \<and> sampleRate rb = 44100" by blast
  from w l52 a b c d e g show ?thesis by (intro exI [of _ wav] conjI)
qed

subsection \<open>Walks and slots\<close>

lemma follows_append:
  "follows Q c sl1 ws1 \<Longrightarrow> follows Q (c + sum_list (map fst sl1)) sl2 ws2
     \<Longrightarrow> follows Q c (sl1 @ sl2) (ws1 @ ws2)"
proof (induction Q c sl1 ws1 rule: follows.induct)
  case (1 Q c ws)
  then show ?case by simp
next
  case (2 Q c sl sls)
  then show ?case by simp
next
  case (3 Q c sl sls w ws)
  then show ?case by (simp add: add.assoc)
qed

lemma follows_length: "follows Q c sl ws \<Longrightarrow> length ws = length sl"
  by (induction Q c sl ws rule: follows.induct) simp_all

lemma follows_nth:
  "follows Q c sl ws \<Longrightarrow> i < length sl \<Longrightarrow>
     fst (ws ! i) = c + sum_list (take i (map fst sl))
     \<and> Q (fst (ws ! i)) (fst (sl ! i)) (snd (sl ! i)) (snd (ws ! i))"
proof (induction Q c sl ws arbitrary: i rule: follows.induct)
  case (1 Q c ws)
  then show ?case by simp
next
  case (2 Q c sl sls)
  then show ?case by simp
next
  case (3 Q c sl sls w ws)
  show ?case
  proof (cases i)
    case 0
    with "3.prems" show ?thesis by simp
  next
    case (Suc j)
    with "3.prems" have "follows Q (c + fst sl) sls ws" "j < length sls" by simp_all
    from "3.IH" [OF this]
    have a: "fst (ws ! j) = c + fst sl + sum_list (take j (map fst sls))"
      and b: "Q (fst (ws ! j)) (fst (sls ! j)) (snd (sls ! j)) (snd (ws ! j))"
      by blast+
    have "fst ((w # ws) ! i) = c + sum_list (take i (map fst (sl # sls)))"
      using a Suc by (simp add: add.assoc)
    moreover have "Q (fst ((w # ws) ! i)) (fst ((sl # sls) ! i)) (snd ((sl # sls) ! i))
        (snd ((w # ws) ! i))"
      using b Suc by simp
    ultimately show ?thesis by (rule conjI)
  qed
qed

lemma follows_windows:
  "follows Q c sl ws \<Longrightarrow> w \<in> set ws \<Longrightarrow> \<exists>s d n. Q s d n (snd w)"
proof (induction Q c sl ws rule: follows.induct)
  case (1 Q c ws)
  then show ?case by simp
next
  case (2 Q c sl sls)
  then show ?case by simp
next
  case (3 Q c sl sls w' ws)
  then show ?case by auto
qed

lemma follows_sorted:
  "follows Q c sl ws \<Longrightarrow> \<forall>s \<in> set sl. 0 \<le> fst s \<Longrightarrow>
     sorted (map fst ws) \<and> (\<forall>w \<in> set ws. c \<le> fst w)"
proof (induction Q c sl ws rule: follows.induct)
  case (1 Q c ws)
  then show ?case by simp
next
  case (2 Q c sl sls)
  then show ?case by simp
next
  case (3 Q c sl sls w ws)
  then have "sorted (map fst ws) \<and> (\<forall>w \<in> set ws. c + fst sl \<le> fst w)" by simp
  moreover from "3.prems" have "0 \<le> fst sl" "fst w = c" by simp_all
  ultimately show ?case by fastforce
qed

text \<open>A loop whose body appends the windows of its element's slots.\<close>

lemma forEach_follows:
  assumes "\<And>x w w'. x \<in> set xs \<Longrightarrow> body x w = Some w' \<Longrightarrow>
      cursor w' = cursor w + sum_list (map fst (sl x))
      \<and> (\<exists>ws. trace w' = trace w @ ws \<and> follows Q (cursor w) (sl x) ws)"
    and "forEach body xs w = Some w'"
  shows "cursor w' = cursor w + sum_list (map fst (concat (map sl xs)))
     \<and> (\<exists>ws. trace w' = trace w @ ws \<and> follows Q (cursor w) (concat (map sl xs)) ws)"
  using assms
proof (induction xs arbitrary: w)
  case Nil
  then show ?case by simp
next
  case (Cons x xs)
  from Cons.prems(2) obtain w1 where w1: "body x w = Some w1"
    and rest: "forEach body xs w1 = Some w'"
    by (auto simp: bind_eq_Some_conv)
  from Cons.prems(1) [OF _ w1]
  obtain ws1 where c1: "cursor w1 = cursor w + sum_list (map fst (sl x))"
    and t1: "trace w1 = trace w @ ws1" and f1: "follows Q (cursor w) (sl x) ws1"
    by auto
  have "cursor w' = cursor w1 + sum_list (map fst (concat (map sl xs)))
     \<and> (\<exists>ws. trace w' = trace w1 @ ws \<and> follows Q (cursor w1) (concat (map sl xs)) ws)"
    by (rule Cons.IH [OF _ rest]) (rule Cons.prems(1), simp_all)
  then obtain ws2 where c2: "cursor w' = cursor w1 + sum_list (map fst (concat (map sl xs)))"
    and t2: "trace w' = trace w1 @ ws2"
    and f2: "follows Q (cursor w1) (concat (map sl xs)) ws2"
    by auto
  from f1 f2 c1 have "follows Q (cursor w) (sl x @ concat (map sl xs)) (ws1 @ ws2)"
    by (intro follows_append) simp_all
  with c1 c2 t1 t2 show ?case by simp
qed

lemma forEach_total:
  assumes "\<And>x w. x \<in> set xs \<Longrightarrow> \<exists>w'. body x w = Some w'"
  shows "\<exists>w'. forEach body xs w = Some w'"
  using assms
proof (induction xs arbitrary: w)
  case Nil
  then show ?case by simp
next
  case (Cons x xs)
  then obtain w1 where "body x w = Some w1" by (meson list.set_intros(1))
  moreover have "\<exists>w'. forEach body xs w1 = Some w'"
    by (rule Cons.IH) (rule Cons.prems, simp)
  ultimately show ?case by auto
qed

lemma forEach_unchanged:
  assumes "\<And>x w w'. x \<in> set xs \<Longrightarrow> body x w = Some w' \<Longrightarrow> w' = w"
    and "forEach body xs w = Some w'"
  shows "w' = w"
  using assms
proof (induction xs arbitrary: w)
  case Nil
  then show ?case by simp
next
  case (Cons x xs)
  from Cons.prems(2) obtain w1 where w1: "body x w = Some w1"
    and rest: "forEach body xs w1 = Some w'"
    by (auto simp: bind_eq_Some_conv)
  from Cons.prems(1) [OF _ w1] have "w1 = w" by simp
  moreover have "w' = w1" by (rule Cons.IH [OF _ rest]) (rule Cons.prems(1), simp_all)
  ultimately show ?case by simp
qed

subsection \<open>The calls of one bar\<close>

lemma drumCalls_routed:
  "x \<in> set (fst (drumCalls random k g rootFreq beatDuration MusicBus MasterCompressor st t))
     \<Longrightarrow> routed x"
  by (cases g) (auto simp: drumCalls_def routed_def Let_def split: if_splits)

lemma drumCalls_times:
  assumes "0 \<le> beatDuration" "\<forall>i. 0 \<le> random i"
    and "x \<in> set (fst (drumCalls random k g rootFreq beatDuration mb ms st t))"
  shows "t \<le> call_time x"
proof -
  have r: "0 \<le> beatDuration * (random (Suc k) * 4)" using assms(1,2) by simp
  show ?thesis
    using assms(1,3) r
    by (cases g) (auto simp: drumCalls_def Let_def split: if_splits)
qed

lemma harmonyCalls_routed:
  "x \<in> set (harmonyCalls g fs beatDuration mb rv st t) \<Longrightarrow> routed x"
  by (auto simp: harmonyCalls_def routed_def Let_def split: if_splits)

lemma harmonyCalls_times:
  assumes "0 \<le> beatDuration" "x \<in> set (harmonyCalls g fs beatDuration mb rv st t)"
  shows "t \<le> call_time x"
  using assms
  by (auto simp: harmonyCalls_def Let_def split: if_splits)

subsection \<open>The bar loop\<close>

lemma arrangeBars_stop:
  "\<not> t < endTime - 1 / 10 \<Longrightarrow>
     arrangeBars random g fs bpm mb ms rv st endTime t k = Some ([], k)"
  by (subst arrangeBars.simps) (simp only: if_False)

lemma arrangeBars_step:
  assumes "t < endTime - 1 / 10" "bpm \<noteq> 0" "fs \<noteq> []"
  shows "arrangeBars random g fs bpm mb ms rv st endTime t k =
     Option.bind
       (arrangeBars random g fs bpm mb ms rv st endTime (t + 60 / real_of_int bpm * 4)
          (snd (drumCalls random k g (hd fs / 2) (60 / real_of_int bpm) mb ms st t)))
       (\<lambda>r. Some (fst (drumCalls random k g (hd fs / 2) (60 / real_of_int bpm) mb ms st t)
                    @ harmonyCalls g fs (60 / real_of_int bpm) mb rv st t @ fst r, snd r))"
proof -
  have c: "\<not> (bpm = 0 \<or> fs = [])" using assms(2,3) by simp
  show ?thesis
    by (subst arrangeBars.simps) (simp only: if_P [OF assms(1)] if_not_P [OF c] Let_def)
qed

text \<open>With a positive BPM and a frequency the loop ends: induction on the bars left.\<close>

lemma arrangeBars_bounded:
  assumes "0 < bpm" "fs \<noteq> []" "bar = 60 / real_of_int bpm * 4"
  shows "endTime - 1 / 10 - t \<le> real n * bar \<Longrightarrow>
     \<exists>r. arrangeBars random g fs bpm mb ms rv st endTime t k = Some r"
proof (induction n arbitrary: t k)
  case 0
  then have "\<not> t < endTime - 1 / 10" by simp
  from arrangeBars_stop [OF this] show ?case by blast
next
  case (Suc n)
  show ?case
  proof (cases "t < endTime - 1 / 10")
    case False
    from arrangeBars_stop [OF this] show ?thesis by blast
  next
    case True
    from assms(1) have nz: "bpm \<noteq> 0" by simp
    from Suc.prems have "endTime - 1 / 10 - (t + bar) \<le> real n * bar"
      by (simp add: algebra_simps)
    from Suc.IH [OF this] obtain r' where
      "arrangeBars random g fs bpm mb ms rv st endTime (t + bar)
         (snd (drumCalls random k g (hd fs / 2) (60 / real_of_int bpm) mb ms st t))
         = Some r'"
      by blast
    then show ?thesis
      unfolding arrangeBars_step [OF True nz assms(2)] assms(3) by simp
  qed
qed

lemma arrangeBars_total:
  assumes "0 < bpm" "fs \<noteq> []"
  shows "\<exists>r. arrangeBars random g fs bpm mb ms rv st endTime t k = Some r"
proof -
  define bar where "bar = 60 / real_of_int bpm * 4"
  from assms(1) have pos: "0 < bar" by (simp add: bar_def)
  define n where "n = nat \<lceil>(endTime - 1 / 10 - t) / bar\<rceil>"
  have "(endTime - 1 / 10 - t) / bar \<le> real n"
    unfolding n_def by (simp add: of_nat_ceiling)
  with pos have "endTime - 1 / 10 - t \<le> real n * bar"
    by (simp add: pos_divide_le_eq)
  then show ?thesis
    by (rule arrangeBars_bounded [OF assms bar_def])
qed

lemma playArrangement_total:
  assumes "0 < bpm" "fs \<noteq> []"
  shows "\<exists>r. playArrangement random k g fs t d bpm mb ms rv st = Some r"
proof -
  from arrangeBars_total [OF assms] obtain r' where
    "arrangeBars random g fs bpm mb ms rv st (t + d) t k = Some r'" by blast
  then show ?thesis by (simp add: playArrangement_def Let_def)
qed

text \<open>What the loop returns, if it returns: by the induction rule of its definition.\<close>

lemma bar_loop_step:
  assumes ih: "\<And>t' k' r'. loop random g fs bpm mb ms rv st endTime t' k' = Some r' \<Longrightarrow>
      mb = MusicBus \<longrightarrow> ms = MasterCompressor \<longrightarrow>
        (\<forall>x \<in> set (fst r'). routed x
           \<and> (0 < bpm \<and> (\<forall>i. 0 \<le> random i) \<longrightarrow> t' \<le> call_time x))"
    and body: "(if t < endTime - 1 / 10
      then if bpm = 0 \<or> fs = [] then None
           else let beatDuration = 60 / real_of_int bpm;
                    barDuration = beatDuration * 4;
                    rootFreq = hd fs / 2;
                    d = drumCalls random k g rootFreq beatDuration mb ms st t;
                    h = harmonyCalls g fs beatDuration mb rv st t
                in Option.bind
                     (loop random g fs bpm mb ms rv st endTime (t + barDuration) (snd d))
                     (\<lambda>r. Some (fst d @ h @ fst r, snd r))
      else Some ([], k)) = Some r"
  shows "mb = MusicBus \<longrightarrow> ms = MasterCompressor \<longrightarrow>
       (\<forall>x \<in> set (fst r). routed x
          \<and> (0 < bpm \<and> (\<forall>i. 0 \<le> random i) \<longrightarrow> t \<le> call_time x))"
  proof (intro impI ballI)
    fix x
    assume mb: "mb = MusicBus" and ms: "ms = MasterCompressor" and x: "x \<in> set (fst r)"
    show "routed x \<and> (0 < bpm \<and> (\<forall>i. 0 \<le> random i) \<longrightarrow> t \<le> call_time x)"
    proof (cases "t < endTime - 1 / 10")
      case False
      from body have "Some ([], k) = Some r" by (simp only: if_not_P [OF False])
      with x show ?thesis by auto
    next
      case True
      define bd where "bd = 60 / real_of_int bpm"
      define d where "d = drumCalls random k g (hd fs / 2) bd mb ms st t"
      define h where "h = harmonyCalls g fs bd mb rv st t"
      from body have e: "(if bpm = 0 \<or> fs = [] then None
           else let beatDuration = 60 / real_of_int bpm;
                    barDuration = beatDuration * 4;
                    rootFreq = hd fs / 2;
                    d = drumCalls random k g rootFreq beatDuration mb ms st t;
                    h = harmonyCalls g fs beatDuration mb rv st t
                in Option.bind
                     (loop random g fs bpm mb ms rv st endTime (t + barDuration) (snd d))
                     (\<lambda>r. Some (fst d @ h @ fst r, snd r))) = Some r"
        by (simp only: if_P [OF True])
      have nz: "\<not> (bpm = 0 \<or> fs = [])"
      proof
        assume c: "bpm = 0 \<or> fs = []"
        from e have "None = Some r" by (simp only: if_P [OF c])
        then show False by simp
      qed
      have "Option.bind (loop random g fs bpm mb ms rv st endTime (t + bd * 4) (snd d))
              (\<lambda>r. Some (fst d @ h @ fst r, snd r)) = Some r"
        unfolding bd_def d_def h_def using e by (simp only: if_not_P [OF nz] Let_def)
      then obtain r' where
        r': "loop random g fs bpm mb ms rv st endTime (t + bd * 4) (snd d) = Some r'"
        and r: "r = (fst d @ h @ fst r', snd r')"
        by (auto simp: bind_eq_Some_conv)
      from ih [OF r'] mb ms
      have ih: "\<forall>x \<in> set (fst r'). routed x
          \<and> (0 < bpm \<and> (\<forall>i. 0 \<le> random i) \<longrightarrow> t + bd * 4 \<le> call_time x)"
        by blast
      from x r consider "x \<in> set (fst d)" | "x \<in> set h" | "x \<in> set (fst r')" by auto
      then show ?thesis
      proof cases
        case 1
        then have "routed x" unfolding d_def mb ms by (rule drumCalls_routed)
        moreover have "t \<le> call_time x" if "0 < bpm" "\<forall>i. 0 \<le> random i"
        proof -
          from that(1) have "0 \<le> bd" by (simp add: bd_def)
          from this that(2) 1 [unfolded d_def] show ?thesis by (rule drumCalls_times)
        qed
        ultimately show ?thesis by blast
      next
        case 2
        then have "routed x" unfolding h_def by (rule harmonyCalls_routed)
        moreover have "t \<le> call_time x" if "0 < bpm"
        proof -
          from that have "0 \<le> bd" by (simp add: bd_def)
          from this 2 [unfolded h_def] show ?thesis by (rule harmonyCalls_times)
        qed
        ultimately show ?thesis by blast
      next
        case 3
        with ih have a: "routed x"
          and b: "0 < bpm \<and> (\<forall>i. 0 \<le> random i) \<longrightarrow> t + bd * 4 \<le> call_time x"
          by blast+
        have "t \<le> call_time x" if "0 < bpm" "\<forall>i. 0 \<le> random i"
        proof -
          from that(1) have "0 \<le> bd * 4" by (simp add: bd_def)
          moreover from b that have "t + bd * 4 \<le> call_time x" by blast
          ultimately show ?thesis by linarith
        qed
        with a show ?thesis by blast
      qed
    qed
  qed

lemma arrangeBars_calls:
  assumes "arrangeBars random g fs bpm mb ms rv st endTime t k = Some r"
  shows "mb = MusicBus \<longrightarrow> ms = MasterCompressor \<longrightarrow>
       (\<forall>x \<in> set (fst r). routed x
          \<and> (0 < bpm \<and> (\<forall>i. 0 \<le> random i) \<longrightarrow> t \<le> call_time x))"
proof (rule arrangeBars.raw_induct
    [where P = "\<lambda>random g fs bpm mb ms rv st endTime t k r.
       mb = MusicBus \<longrightarrow> ms = MasterCompressor \<longrightarrow>
         (\<forall>x \<in> set (fst r). routed x
            \<and> (0 < bpm \<and> (\<forall>i. 0 \<le> random i) \<longrightarrow> t \<le> call_time x))",
     OF _ assms], goal_cases)
  case (1 loop random g fs bpm mb ms rv st endTime t k r)
  show ?case
    by (rule bar_loop_step [where loop = loop, OF _ "1"(2)]) (rule "1"(1))
qed

lemma playArrangement_calls:
  assumes "playArrangement random k g fs t d bpm MusicBus MasterCompressor rv st = Some r"
  shows "\<forall>x \<in> set (fst r). routed x
          \<and> (0 < bpm \<and> (\<forall>i. 0 \<le> random i) \<longrightarrow> t \<le> call_time x)"
proof -
  from assms obtain r' where
    r': "arrangeBars random g fs bpm MusicBus MasterCompressor rv st (t + d) t k = Some r'"
    and r: "fst r = (if st = CHORUS then [playCrash t MusicBus] else []) @ fst r'"
    by (auto simp: playArrangement_def Let_def bind_eq_Some_conv)
  from arrangeBars_calls [OF r']
  have "\<forall>x \<in> set (fst r'). routed x
          \<and> (0 < bpm \<and> (\<forall>i. 0 \<le> random i) \<longrightarrow> t \<le> call_time x)"
    by blast
  moreover have "routed (playCrash t MusicBus)" by (simp add: routed_def)
  ultimately show ?thesis unfolding r by auto
qed

subsection \<open>The section walk of the live engine\<close>

lemma chordStep_follows:
  assumes "chordStep random g bpm st d name w = Some w'"
  shows "cursor w' = cursor w + sum_list (map fst [(d, name)])
     \<and> (\<exists>ws. trace w' = trace w @ ws
           \<and> follows (window_ok (0 < bpm \<and> (\<forall>i. 0 \<le> random i))) (cursor w) [(d, name)] ws)"
proof (cases "getChordFrequencies name = []")
  case True
  with assms have "w' = \<lparr>cursor = cursor w + d, draws = draws w,
      trace = trace w @ [(cursor w, [])]\<rparr>"
    by (simp add: chordStep_def)
  with True show ?thesis by (simp add: window_ok_def)
next
  case False
  with assms obtain r where
    r: "playArrangement random (draws w) g (getChordFrequencies name) (cursor w) d bpm
          MusicBus MasterCompressor ReverbNode st = Some r"
    and w': "w' = \<lparr>cursor = cursor w + d, draws = snd r,
      trace = trace w @ [(cursor w, fst r)]\<rparr>"
    by (auto simp: chordStep_def Let_def bind_eq_Some_conv)
  from playArrangement_calls [OF r] False
  have "window_ok (0 < bpm \<and> (\<forall>i. 0 \<le> random i)) (cursor w) d name (fst r)"
    unfolding window_ok_def by blast
  with w' show ?thesis by simp
qed

lemma chordStep_total:
  assumes "0 < bpm"
  shows "\<exists>w'. chordStep random g bpm st d name w = Some w'"
proof (cases "getChordFrequencies name = []")
  case True
  then show ?thesis by (simp add: chordStep_def)
next
  case False
  from playArrangement_total [OF assms False] obtain r where
    "playArrangement random (draws w) g (getChordFrequencies name) (cursor w) d bpm
       MusicBus MasterCompressor ReverbNode st = Some r"
    by blast
  with False show ?thesis by (simp add: chordStep_def Let_def)
qed

lemma line_slots_eq:
  "line_slots spb chordLine =
     concat (map (\<lambda>c. [(spb / (if length (chordsInLine chordLine) = 0 then 1
                               else real (length (chordsInLine chordLine))), c)])
               (chordsInLine chordLine))"
  by (cases "chordsInLine chordLine = []") (simp_all add: line_slots_def Let_def concat_map_singleton)

lemma lineStep_follows:
  assumes "secondsPerBar bpm = Some spb" "lineStep random g bpm st chordLine w = Some w'"
  shows "cursor w' = cursor w + sum_list (map fst (line_slots spb chordLine))
     \<and> (\<exists>ws. trace w' = trace w @ ws
           \<and> follows (window_ok (0 < bpm \<and> (\<forall>i. 0 \<le> random i))) (cursor w)
                (line_slots spb chordLine) ws)"
proof -
  define d where "d = spb / (if length (chordsInLine chordLine) = 0 then 1
                               else real (length (chordsInLine chordLine)))"
  from assms have f: "forEach (chordStep random g bpm st d) (chordsInLine chordLine) w = Some w'"
    by (simp add: lineStep_def Let_def d_def)
  show ?thesis
    unfolding line_slots_eq d_def [symmetric]
    by (rule forEach_follows [OF _ f]) (rule chordStep_follows)
qed

lemma lineStep_total:
  assumes "0 < bpm"
  shows "\<exists>w'. lineStep random g bpm st chordLine w = Some w'"
proof -
  from assms obtain spb where "secondsPerBar bpm = Some spb"
    by (simp add: secondsPerBar_def secondsPerBeat_def)
  then show ?thesis
    unfolding lineStep_def Let_def
    by (simp add: forEach_total chordStep_total [OF assms])
qed

lemma lineStep_unchanged:
  assumes "secondsPerBar bpm = None" "lineStep random g bpm st chordLine w = Some w'"
  shows "w' = w"
  using assms by (simp add: lineStep_def Let_def split: if_splits)

lemma sectionStep_follows:
  assumes "secondsPerBar bpm = Some spb" "sectionStep random g bpm section w = Some w'"
  shows "cursor w' = cursor w
       + sum_list (map fst (concat (map (line_slots spb) (sectionChords section))))
     \<and> (\<exists>ws. trace w' = trace w @ ws
           \<and> follows (window_ok (0 < bpm \<and> (\<forall>i. 0 \<le> random i))) (cursor w)
                (concat (map (line_slots spb) (sectionChords section))) ws)"
  using assms(2) unfolding sectionStep_def
  by (rule forEach_follows [rotated]) (rule lineStep_follows [OF assms(1)])

lemma sectionStep_total:
  assumes "0 < bpm"
  shows "\<exists>w'. sectionStep random g bpm section w = Some w'"
  unfolding sectionStep_def by (rule forEach_total) (rule lineStep_total [OF assms])

lemma sectionStep_unchanged:
  assumes "secondsPerBar bpm = None" "sectionStep random g bpm section w = Some w'"
  shows "w' = w"
  using assms(2) unfolding sectionStep_def
  by (rule forEach_unchanged [rotated]) (rule lineStep_unchanged [OF assms(1)])

lemma walk_follows:
  assumes "secondsPerBar bpm = Some spb"
    and "forEach (sectionStep random g bpm) (sections song) w = Some w'"
  shows "cursor w' = cursor w + sum_list (map fst (song_slots spb song))
     \<and> (\<exists>ws. trace w' = trace w @ ws
           \<and> follows (window_ok (0 < bpm \<and> (\<forall>i. 0 \<le> random i))) (cursor w)
                (song_slots spb song) ws)"
  unfolding song_slots_def
  by (rule forEach_follows [OF _ assms(2)]) (rule sectionStep_follows [OF assms(1)])

lemma walk_unchanged:
  assumes "secondsPerBar bpm = None"
    and "forEach (sectionStep random g bpm) (sections song) w = Some w'"
  shows "w' = w"
  by (rule forEach_unchanged [OF _ assms(2)]) (rule sectionStep_unchanged [OF assms(1)])

text \<open>The result of \<open>playSongDemo\<close>, when there is one.\<close>

lemma playSongDemo_follows:
  assumes "playSongDemo random now song vocalBuffer = Some p"
  shows "\<exists>bpm. bpm_of_tempo (tempo song) = Some bpm
     \<and> (case secondsPerBar bpm of
          None \<Rightarrow> windows p = [] \<and> duration p = 0
        | Some spb \<Rightarrow>
            follows (window_ok (0 < bpm \<and> (\<forall>i. 0 \<le> random i))) (now + 0.2)
              (song_slots spb song) (windows p)
            \<and> duration p = sum_list (map fst (song_slots spb song)))"
proof -
  from assms obtain bpm w' where bpm: "bpm_of_tempo (tempo song) = Some bpm"
    and walk: "forEach (sectionStep random (genre song) bpm) (sections song)
                 \<lparr>cursor = now + 0.2, draws = 0, trace = []\<rparr> = Some w'"
    and p: "windows p = trace w'" "duration p = cursor w' - (now + 0.2)"
    by (auto simp: playSongDemo_def Let_def bind_eq_Some_conv)
  show ?thesis
  proof (cases "secondsPerBar bpm")
    case None
    from walk_unchanged [OF None walk] p bpm None show ?thesis by simp
  next
    case (Some spb)
    from walk_follows [OF Some walk] p bpm Some show ?thesis by auto
  qed
qed

lemma playSongDemo_total:
  assumes "bpm_of_tempo (tempo song) = Some bpm" "0 < bpm"
  shows "\<exists>p. playSongDemo random now song vocalBuffer = Some p"
proof -
  have "\<exists>w'. forEach (sectionStep random (genre song) bpm) (sections song)
                 \<lparr>cursor = now + 0.2, draws = 0, trace = []\<rparr> = Some w'"
    by (rule forEach_total) (rule sectionStep_total [OF assms(2)])
  with assms(1) show ?thesis by (auto simp: playSongDemo_def Let_def)
qed

subsection \<open>The section walk of the export engine\<close>

lemma fold_follows:
  assumes "\<And>x w. x \<in> set xs \<Longrightarrow>
      cursor_p0 (body x w) = cursor_p0 w + sum_list (map fst (sl x))
      \<and> (\<exists>ws. trace_p0 (body x w) = trace_p0 w @ ws \<and> follows Q (cursor_p0 w) (sl x) ws)"
  shows "cursor_p0 (fold body xs w) = cursor_p0 w + sum_list (map fst (concat (map sl xs)))
     \<and> (\<exists>ws. trace_p0 (fold body xs w) = trace_p0 w @ ws
           \<and> follows Q (cursor_p0 w) (concat (map sl xs)) ws)"
  using assms
proof (induction xs arbitrary: w)
  case Nil
  then show ?case by simp
next
  case (Cons x xs)
  define w1 where "w1 = body x w"
  from Cons.prems [of x w]
  obtain ws1 where c1: "cursor_p0 w1 = cursor_p0 w + sum_list (map fst (sl x))"
    and t1: "trace_p0 w1 = trace_p0 w @ ws1" and f1: "follows Q (cursor_p0 w) (sl x) ws1"
    unfolding w1_def by auto
  have "cursor_p0 (fold body xs w1) = cursor_p0 w1 + sum_list (map fst (concat (map sl xs)))
     \<and> (\<exists>ws. trace_p0 (fold body xs w1) = trace_p0 w1 @ ws
           \<and> follows Q (cursor_p0 w1) (concat (map sl xs)) ws)"
    by (rule Cons.IH) (rule Cons.prems, simp)
  then obtain ws2 where
    c2: "cursor_p0 (fold body xs w1) = cursor_p0 w1 + sum_list (map fst (concat (map sl xs)))"
    and t2: "trace_p0 (fold body xs w1) = trace_p0 w1 @ ws2"
    and f2: "follows Q (cursor_p0 w1) (concat (map sl xs)) ws2"
    by auto
  from f1 f2 c1 have "follows Q (cursor_p0 w) (sl x @ concat (map sl xs)) (ws1 @ ws2)"
    by (intro follows_append) simp_all
  with c1 c2 t1 t2 show ?case by (simp add: w1_def)
qed

lemma chordStep_p0_follows:
  "cursor_p0 (chordStep_p0 d name w) = cursor_p0 w + sum_list (map fst [(d, name)])
   \<and> (\<exists>ws. trace_p0 (chordStep_p0 d name w) = trace_p0 w @ ws
         \<and> follows (\<lambda>start d name calls. getChordFrequencies_p0 name = [] \<longrightarrow> calls = [])
              (cursor_p0 w) [(d, name)] ws)"
  by (simp add: chordStep_p0_def Let_def)

lemma line_slots_p0_eq:
  "line_slots_p0 bar chordLine =
     concat (map (\<lambda>c. [(bar / (if length (chordsInLine_p0 chordLine) = 0 then 1
                               else real (length (chordsInLine_p0 chordLine))), c)])
               (chordsInLine_p0 chordLine))"
  by (cases "chordsInLine_p0 chordLine = []")
     (simp_all add: line_slots_p0_def Let_def concat_map_singleton)

lemma lineStep_p0_follows:
  "cursor_p0 (lineStep_p0 bar chordLine w)
     = cursor_p0 w + sum_list (map fst (line_slots_p0 bar chordLine))
   \<and> (\<exists>ws. trace_p0 (lineStep_p0 bar chordLine w) = trace_p0 w @ ws
         \<and> follows (\<lambda>start d name calls. getChordFrequencies_p0 name = [] \<longrightarrow> calls = [])
              (cursor_p0 w) (line_slots_p0 bar chordLine) ws)"
  unfolding line_slots_p0_eq lineStep_p0_def Let_def
  by (rule fold_follows) (rule chordStep_p0_follows)

lemma sectionStep_p0_follows:
  "cursor_p0 (sectionStep_p0 bar section w)
     = cursor_p0 w + sum_list (map fst (concat (map (line_slots_p0 bar) (chords section))))
   \<and> (\<exists>ws. trace_p0 (sectionStep_p0 bar section w) = trace_p0 w @ ws
         \<and> follows (\<lambda>start d name calls. getChordFrequencies_p0 name = [] \<longrightarrow> calls = [])
              (cursor_p0 w) (concat (map (line_slots_p0 bar) (chords section))) ws)"
  unfolding sectionStep_p0_def
  by (rule fold_follows) (rule lineStep_p0_follows)

lemma renderMusicToContext_follows:
  assumes "bpm_p0 (tempo song) = Some bpm"
  shows "\<exists>r. renderMusicToContext song vocalBuffer startTime = Some r
     \<and> follows (\<lambda>start d name calls. getChordFrequencies_p0 name = [] \<longrightarrow> calls = [])
          startTime (song_slots_p0 (barDur bpm) song) (windows_p0 r)
     \<and> duration_p0 r = sum_list (map fst (song_slots_p0 (barDur bpm) song))"
proof -
  define w0 where "w0 = \<lparr>cursor_p0 = startTime, trace_p0 = []\<rparr>"
  define w where "w = fold (sectionStep_p0 (barDur bpm)) (sections song) w0"
  have "cursor_p0 w = cursor_p0 w0 + sum_list (map fst (song_slots_p0 (barDur bpm) song))
     \<and> (\<exists>ws. trace_p0 w = trace_p0 w0 @ ws
           \<and> follows (\<lambda>start d name calls. getChordFrequencies_p0 name = [] \<longrightarrow> calls = [])
                (cursor_p0 w0) (song_slots_p0 (barDur bpm) song) ws)"
    unfolding w_def song_slots_p0_def
    by (rule fold_follows) (rule sectionStep_p0_follows)
  then show ?thesis
    using assms by (simp add: renderMusicToContext_def Let_def w_def w0_def)
qed

subsection \<open>Slot durations\<close>

lemma line_slots_fraction:
  assumes "s \<in> set (line_slots spb chordLine)"
  shows "\<exists>n>0. fst s = spb / real n"
proof -
  from assms have "chordsInLine chordLine \<noteq> []"
    and "fst s = spb / real (length (chordsInLine chordLine))"
    by (auto simp: line_slots_def Let_def)
  then show ?thesis by (intro exI [of _ "length (chordsInLine chordLine)"]) simp
qed

lemma song_slots_fraction:
  assumes "s \<in> set (song_slots spb song)"
  shows "\<exists>n>0. fst s = spb / real n"
proof -
  from assms obtain chordLine where "s \<in> set (line_slots spb chordLine)"
    by (auto simp: song_slots_def)
  then show ?thesis by (rule line_slots_fraction)
qed

lemma song_slots_nonneg:
  assumes "0 < spb" "s \<in> set (song_slots spb song)"
  shows "0 \<le> fst s"
proof -
  from song_slots_fraction [OF assms(2)] obtain n where "0 < n" "fst s = spb / real n"
    by blast
  with assms(1) show ?thesis by simp
qed

lemma sum_list_nonneg_slots:
  assumes "0 < spb"
  shows "0 \<le> sum_list (map fst (song_slots spb song))"
  by (rule sum_list_nonneg) (use song_slots_nonneg [OF assms] in auto)

lemma compressor_downstream:
  "(a, b) \<in> (set connections)\<^sup>* \<Longrightarrow> a \<in> {MasterCompressor, MasterGain, Destination}
     \<Longrightarrow> b \<in> {MasterCompressor, MasterGain, Destination}"
  by (induction rule: rtrancl_induct) (auto simp: connections_def)

lemma compressor_not_ducked: "\<not> passes_through MasterCompressor MusicBus"
  using compressor_downstream [of MasterCompressor MusicBus]
  by (auto simp: passes_through_def)

lemma music_bus_ducked: "passes_through MusicBus MusicBus"
  by (simp add: passes_through_def)

subsection \<open>Drum routing\<close>

lemma follows_windows_start:
  "follows Q c sl ws \<Longrightarrow> w \<in> set ws \<Longrightarrow> \<exists>d n. Q (fst w) d n (snd w)"
proof (induction Q c sl ws rule: follows.induct)
  case (1 Q c ws)
  then show ?case by simp
next
  case (2 Q c sl sls)
  then show ?case by simp
next
  case (3 Q c sl sls w' ws)
  then show ?case by auto
qed

lemma scheduled_window_ok:
  assumes "x \<in> set (scheduled (playSongDemo random now song vocalBuffer))"
  shows "routed x"
proof -
  from assms obtain p where p: "playSongDemo random now song vocalBuffer = Some p"
    by (cases "playSongDemo random now song vocalBuffer") (auto simp: scheduled_def)
  with assms have "x \<in> set (concat (map snd (windows p)))"
    by (simp add: scheduled_def)
  then obtain w where w: "w \<in> set (windows p)" and x: "x \<in> set (snd w)" by auto
  from playSongDemo_follows [OF p] obtain bpm where
    c: "case secondsPerBar bpm of
          None \<Rightarrow> windows p = [] \<and> duration p = 0
        | Some spb \<Rightarrow>
            follows (window_ok (0 < bpm \<and> (\<forall>i. 0 \<le> random i))) (now + 0.2)
              (song_slots spb song) (windows p)
            \<and> duration p = sum_list (map fst (song_slots spb song))"
    by blast
  show ?thesis
  proof (cases "secondsPerBar bpm")
    case None
    with c w show ?thesis by simp
  next
    case (Some spb)
    with c have "follows (window_ok (0 < bpm \<and> (\<forall>i. 0 \<le> random i))) (now + 0.2)
              (song_slots spb song) (windows p)"
      by simp
    from follows_windows_start [OF this w] x show ?thesis
      by (auto simp: window_ok_def)
  qed
qed

text \<open>
  Claim C2, amended. In every schedule of the live engine each kick, snare, hi-hat
  and woodblock voice is connected to the compressor, from where no signal passes
  through the ducked music bus; each crash voice is connected to the music bus itself.
\<close>

theorem C2_drum_routing_amended:
  "\<forall>x \<in> set (scheduled (playSongDemo random now song vocalBuffer)).
     (is_kick x \<or> is_snare x \<or> is_hihat x \<or> is_woodblock x
        \<longrightarrow> call_dest x = MasterCompressor \<and> \<not> passes_through (call_dest x) MusicBus)
     \<and> (is_crash x \<longrightarrow> call_dest x = MusicBus \<and> passes_through (call_dest x) MusicBus)"
proof
  fix x
  assume "x \<in> set (scheduled (playSongDemo random now song vocalBuffer))"
  then have "routed x" by (rule scheduled_window_ok)
  then show "(is_kick x \<or> is_snare x \<or> is_hihat x \<or> is_woodblock x
        \<longrightarrow> call_dest x = MasterCompressor \<and> \<not> passes_through (call_dest x) MusicBus)
     \<and> (is_crash x \<longrightarrow> call_dest x = MusicBus \<and> passes_through (call_dest x) MusicBus)"
    using compressor_not_ducked music_bus_ducked by (auto simp: routed_def)
qed

text \<open>
  Claim C2 as stated fails for the crash: in the schedule of a pop song with the one
  chorus chord \<open>C\<close> the crash voice is connected to the music bus, the node whose gain
  is ducked.
\<close>

theorem C2_counterexample:
  "map call_dest
     (filter is_crash
        (scheduled (playSongDemo random_half 0 (song_of pop ''120'' CHORUS [''C'']) False)))
     = [MusicBus]
   \<and> passes_through MusicBus MusicBus"
proof -
  have "map call_dest
     (filter is_crash
        (scheduled (playSongDemo random_half 0 (song_of pop ''120'' CHORUS [''C'']) False)))
     = [MusicBus]"
    by code_simp
  then show ?thesis using music_bus_ducked by simp
qed

text \<open>The amended claim on the first kick and on the crash of that schedule.\<close>

theorem C2_witness:
  "playKick (1 / 5) 1 MasterCompressor
     \<in> set (scheduled (playSongDemo random_half 0 (song_of pop ''120'' CHORUS [''C'']) False))
   \<and> \<not> passes_through (call_dest (playKick (1 / 5) 1 MasterCompressor)) MusicBus
   \<and> playCrash (1 / 5) MusicBus
     \<in> set (scheduled (playSongDemo random_half 0 (song_of pop ''120'' CHORUS [''C'']) False))
   \<and> passes_through (call_dest (playCrash (1 / 5) MusicBus)) MusicBus"
proof -
  have k: "playKick (1 / 5) 1 MasterCompressor
     \<in> set (scheduled (playSongDemo random_half 0 (song_of pop ''120'' CHORUS [''C'']) False))"
    by code_simp
  have c: "playCrash (1 / 5) MusicBus
     \<in> set (scheduled (playSongDemo random_half 0 (song_of pop ''120'' CHORUS [''C'']) False))"
    by code_simp
  from C2_drum_routing_amended [of random_half 0 "song_of pop ''120'' CHORUS [''C'']" False] k
  have "\<not> passes_through (call_dest (playKick (1 / 5) 1 MasterCompressor)) MusicBus"
    by (auto simp del: call_dest.simps)
  moreover
  from C2_drum_routing_amended [of random_half 0 "song_of pop ''120'' CHORUS [''C'']" False] c
  have "passes_through (call_dest (playCrash (1 / 5) MusicBus)) MusicBus"
    by (auto simp del: call_dest.simps)
  ultimately show ?thesis using k c by blast
qed

subsection \<open>Crashes of a chorus\<close>

text \<open>
  Claim C3 says that a pop chorus schedules exactly one crash, at the start of its
  first chord window. \<open>playArrangement\<close> is called once for every chord, and each call
  for a chorus starts with a crash: the chorus with the chord line \<open>C G\<close> gets two.
  The hi-hats are denser in the chorus, as claimed: 16 in each bar against 8 in a verse.
\<close>

theorem C3_two_crashes_in_chorus:
  "length (filter is_crash
     (scheduled (playSongDemo random_half 0 (song_of pop ''120'' CHORUS [''C G'']) False))) = 2
   \<and> length (filter is_hihat
     (scheduled (playSongDemo random_half 0 (song_of pop ''120'' CHORUS [''C G'']) False))) = 32
   \<and> length (filter is_hihat
     (scheduled (playSongDemo random_half 0 (song_of pop ''120'' VERSE [''C G'']) False))) = 16"
  by code_simp

subsection \<open>Cursor advance\<close>

lemma secondsPerBar_pos:
  "0 < bpm \<Longrightarrow> secondsPerBar bpm = Some (60 / real_of_int bpm * 4)"
  by (simp add: secondsPerBar_def secondsPerBeat_def)

lemma playSongDemo_positive_bpm:
  assumes "bpm_of_tempo (tempo song) = Some bpm" "0 < bpm"
  shows "\<exists>p. playSongDemo random now song vocalBuffer = Some p
     \<and> follows (window_ok (0 < bpm \<and> (\<forall>i. 0 \<le> random i))) (now + 0.2)
          (song_slots (60 / real_of_int bpm * 4) song) (windows p)
     \<and> duration p = sum_list (map fst (song_slots (60 / real_of_int bpm * 4) song))"
proof -
  from playSongDemo_total [OF assms] obtain p where
    p: "playSongDemo random now song vocalBuffer = Some p" by blast
  from playSongDemo_follows [OF p] assms(1) secondsPerBar_pos [OF assms(2)]
  have "follows (window_ok (0 < bpm \<and> (\<forall>i. 0 \<le> random i))) (now + 0.2)
          (song_slots (60 / real_of_int bpm * 4) song) (windows p)
     \<and> duration p = sum_list (map fst (song_slots (60 / real_of_int bpm * 4) song))"
    by auto
  with p show ?thesis by blast
qed

text \<open>
  Claim C6. With a positive BPM the live walk returns, and so does the export walk.
  Each has one window for every chord slot of the song, in order; the window of slot
  \<open>i\<close> starts at the start time plus the allotted durations of the slots before it,
  whether or not their chord symbols resolve; the window of a slot whose chord symbol
  does not resolve has no calls; and the returned duration is the sum of the allotted
  durations of all slots.
\<close>

theorem C6_cursor_advances_by_slot:
  "(bpm_of_tempo (tempo song) = Some bpm \<and> 0 < bpm \<longrightarrow>
      (\<exists>p. playSongDemo random now song vocalBuffer = Some p
         \<and> length (windows p) = length (song_slots (60 / real_of_int bpm * 4) song)
         \<and> (\<forall>i < length (windows p).
              fst (windows p ! i)
                = now + 0.2
                  + sum_list (take i (map fst (song_slots (60 / real_of_int bpm * 4) song)))
              \<and> (getChordFrequencies (snd (song_slots (60 / real_of_int bpm * 4) song ! i)) = []
                   \<longrightarrow> snd (windows p ! i) = []))
         \<and> duration p = sum_list (map fst (song_slots (60 / real_of_int bpm * 4) song))))
   \<and> (bpm_p0 (tempo song) = Some bpm' \<and> 0 < bpm' \<longrightarrow>
      (\<exists>r. renderMusicToContext song vocalBuffer startTime = Some r
         \<and> length (windows_p0 r) = length (song_slots_p0 (barDur bpm') song)
         \<and> (\<forall>i < length (windows_p0 r).
              fst (windows_p0 r ! i)
                = startTime + sum_list (take i (map fst (song_slots_p0 (barDur bpm') song)))
              \<and> (getChordFrequencies_p0 (snd (song_slots_p0 (barDur bpm') song ! i)) = []
                   \<longrightarrow> snd (windows_p0 r ! i) = []))
         \<and> duration_p0 r = sum_list (map fst (song_slots_p0 (barDur bpm') song))))"
proof (intro conjI impI)
  assume h: "bpm_of_tempo (tempo song) = Some bpm \<and> 0 < bpm"
  define sl where "sl = song_slots (60 / real_of_int bpm * 4) song"
  from h playSongDemo_positive_bpm [of song bpm random now vocalBuffer]
  obtain p where p: "playSongDemo random now song vocalBuffer = Some p"
    and f: "follows (window_ok (0 < bpm \<and> (\<forall>i. 0 \<le> random i))) (now + 0.2) sl (windows p)"
    and d: "duration p = sum_list (map fst sl)"
    unfolding sl_def by blast
  have len: "length (windows p) = length sl" using f by (rule follows_length)
  have "fst (windows p ! i) = now + 0.2 + sum_list (take i (map fst sl))
      \<and> (getChordFrequencies (snd (sl ! i)) = [] \<longrightarrow> snd (windows p ! i) = [])"
    if "i < length (windows p)" for i
  proof -
    from that len have "i < length sl" by simp
    from follows_nth [OF f this] show ?thesis by (simp add: window_ok_def)
  qed
  with p len d
  show "\<exists>p. playSongDemo random now song vocalBuffer = Some p
         \<and> length (windows p) = length (song_slots (60 / real_of_int bpm * 4) song)
         \<and> (\<forall>i < length (windows p).
              fst (windows p ! i)
                = now + 0.2
                  + sum_list (take i (map fst (song_slots (60 / real_of_int bpm * 4) song)))
              \<and> (getChordFrequencies (snd (song_slots (60 / real_of_int bpm * 4) song ! i)) = []
                   \<longrightarrow> snd (windows p ! i) = []))
         \<and> duration p = sum_list (map fst (song_slots (60 / real_of_int bpm * 4) song))"
    unfolding sl_def by blast
next
  assume h: "bpm_p0 (tempo song) = Some bpm' \<and> 0 < bpm'"
  define sl where "sl = song_slots_p0 (barDur bpm') song"
  from h renderMusicToContext_follows [of song bpm' vocalBuffer startTime]
  obtain r where r: "renderMusicToContext song vocalBuffer startTime = Some r"
    and f: "follows (\<lambda>start d name calls. getChordFrequencies_p0 name = [] \<longrightarrow> calls = [])
          startTime sl (windows_p0 r)"
    and d: "duration_p0 r = sum_list (map fst sl)"
    unfolding sl_def by blast
  have len: "length (windows_p0 r) = length sl" using f by (rule follows_length)
  have "fst (windows_p0 r ! i) = startTime + sum_list (take i (map fst sl))
      \<and> (getChordFrequencies_p0 (snd (sl ! i)) = [] \<longrightarrow> snd (windows_p0 r ! i) = [])"
    if "i < length (windows_p0 r)" for i
  proof -
    from that len have "i < length sl" by simp
    from follows_nth [OF f this] show ?thesis by simp
  qed
  with r len d
  show "\<exists>r. renderMusicToContext song vocalBuffer startTime = Some r
         \<and> length (windows_p0 r) = length (song_slots_p0 (barDur bpm') song)
         \<and> (\<forall>i < length (windows_p0 r).
              fst (windows_p0 r ! i)
                = startTime + sum_list (take i (map fst (song_slots_p0 (barDur bpm') song)))
              \<and> (getChordFrequencies_p0 (snd (song_slots_p0 (barDur bpm') song ! i)) = []
                   \<longrightarrow> snd (windows_p0 r ! i) = []))
         \<and> duration_p0 r = sum_list (map fst (song_slots_p0 (barDur bpm') song))"
    unfolding sl_def by blast
qed

text \<open>
  The claim on a verse at 120 BPM with the chord line \<open>C Xyz\<close>, whose second symbol
  does not resolve: both windows last one second, the second one is silent, and the
  duration is two seconds.
\<close>

theorem C6_witness:
  "(\<exists>p. playSongDemo random_half 0 (song_of pop ''120'' VERSE [''C Xyz'']) False = Some p
      \<and> length (windows p) = 2 \<and> fst (windows p ! 1) = 6 / 5 \<and> snd (windows p ! 1) = []
      \<and> duration p = 2)
   \<and> (\<exists>r. renderMusicToContext (song_of pop ''120'' VERSE [''C Xyz'']) False 0 = Some r
      \<and> length (windows_p0 r) = 2 \<and> fst (windows_p0 r ! 1) = 1 \<and> snd (windows_p0 r ! 1) = []
      \<and> duration_p0 r = 2)"
proof -
  let ?song = "song_of pop ''120'' VERSE [''C Xyz'']"
  have t: "tempo ?song = ''120''" by (simp add: song_of_def)
  have b: "bpm_of_tempo (tempo ?song) = Some 120 \<and> (0::int) < 120"
    unfolding t by code_simp
  have b': "bpm_p0 (tempo ?song) = Some 120 \<and> (0::int) < 120"
    unfolding t by code_simp
  have sl: "song_slots (60 / real_of_int 120 * 4) ?song = [(1, ''C''), (1, ''Xyz'')]"
    by code_simp
  have sl': "song_slots_p0 (barDur 120) ?song = [(1, ''C''), (1, ''Xyz'')]"
    by code_simp
  have x: "getChordFrequencies ''Xyz'' = []" "getChordFrequencies_p0 ''Xyz'' = []"
    by (simp_all add: getChordFrequencies_def getChordFrequencies_p0_def rootMatch_def
        is_root_letter_def)
  from C6_cursor_advances_by_slot [of ?song 120 random_half 0 False 120 0] b
  obtain p where p: "playSongDemo random_half 0 ?song False = Some p"
    and len: "length (windows p) = length (song_slots (60 / real_of_int 120 * 4) ?song)"
    and win: "\<forall>i < length (windows p).
              fst (windows p ! i)
                = 0 + 0.2
                  + sum_list (take i (map fst (song_slots (60 / real_of_int 120 * 4) ?song)))
              \<and> (getChordFrequencies (snd (song_slots (60 / real_of_int 120 * 4) ?song ! i)) = []
                   \<longrightarrow> snd (windows p ! i) = [])"
    and d: "duration p = sum_list (map fst (song_slots (60 / real_of_int 120 * 4) ?song))"
    by blast
  from len have l2: "length (windows p) = 2" unfolding sl by simp
  from win l2 have w1: "fst (windows p ! 1) = 6 / 5" "snd (windows p ! 1) = []"
    unfolding sl using x by simp_all
  from d have d2: "duration p = 2" unfolding sl by simp
  from C6_cursor_advances_by_slot [of ?song 120 random_half 0 False 120 0] b'
  obtain r where r: "renderMusicToContext ?song False 0 = Some r"
    and len': "length (windows_p0 r) = length (song_slots_p0 (barDur 120) ?song)"
    and win': "\<forall>i < length (windows_p0 r).
              fst (windows_p0 r ! i)
                = 0 + sum_list (take i (map fst (song_slots_p0 (barDur 120) ?song)))
              \<and> (getChordFrequencies_p0 (snd (song_slots_p0 (barDur 120) ?song ! i)) = []
                   \<longrightarrow> snd (windows_p0 r ! i) = [])"
    and d': "duration_p0 r = sum_list (map fst (song_slots_p0 (barDur 120) ?song))"
    by blast
  from len' have l2': "length (windows_p0 r) = 2" unfolding sl' by simp
  from win' l2' have w1': "fst (windows_p0 r ! 1) = 1" "snd (windows_p0 r ! 1) = []"
    unfolding sl' using x by simp_all
  from d' have d2': "duration_p0 r = 2" unfolding sl' by simp
  from p l2 w1 d2 r l2' w1' d2' show ?thesis by blast
qed

subsection \<open>Monotone cursor\<close>

text \<open>
  Claim C7. With a positive BPM and random draws in \<open>[0, 1)\<close> the live render pass
  returns. The starts of its chord windows never decrease from one window to the
  next and are not before the start time; from each window to the next the cursor
  advances by the bar divided by a positive whole number; every call scheduled for a
  window has a time at or after the start of that window; the vocal sources start at
  or after the start time; and the returned duration is not negative.
\<close>

theorem C7_cursor_monotone:
  assumes "bpm_of_tempo (tempo song) = Some bpm" "0 < bpm"
    and "\<forall>i. 0 \<le> random i \<and> random i < 1"
  shows "\<exists>p. playSongDemo random now song vocalBuffer = Some p
     \<and> sorted (map fst (windows p))
     \<and> (\<forall>w \<in> set (windows p).
          now + 0.2 \<le> fst w \<and> (\<forall>x \<in> set (snd w). fst w \<le> call_time x))
     \<and> (\<forall>i. Suc i < length (windows p) \<longrightarrow>
          (\<exists>n>0. fst (windows p ! Suc i)
                   = fst (windows p ! i) + 60 / real_of_int bpm * 4 / real n))
     \<and> (\<forall>x \<in> set (vocals p). now + 0.2 \<le> call_time x)
     \<and> 0 \<le> duration p"
proof -
  define spb where "spb = 60 / real_of_int bpm * 4"
  define sl where "sl = song_slots spb song"
  from assms(2) have spb: "0 < spb" by (simp add: spb_def)
  from assms(2,3) have timed: "0 < bpm \<and> (\<forall>i. 0 \<le> random i)" by blast
  from playSongDemo_positive_bpm [OF assms(1,2), of random now vocalBuffer]
  obtain p where p: "playSongDemo random now song vocalBuffer = Some p"
    and f: "follows (window_ok (0 < bpm \<and> (\<forall>i. 0 \<le> random i))) (now + 0.2) sl (windows p)"
    and d: "duration p = sum_list (map fst sl)"
    unfolding sl_def spb_def by blast
  have nn: "\<forall>s \<in> set sl. 0 \<le> fst s"
    unfolding sl_def using song_slots_nonneg [OF spb] by blast
  from follows_sorted [OF f nn]
  have srt: "sorted (map fst (windows p))" and lo: "\<forall>w \<in> set (windows p). now + 0.2 \<le> fst w"
    by blast+
  have ev: "\<forall>x \<in> set (snd w). fst w \<le> call_time x" if "w \<in> set (windows p)" for w
    using follows_windows_start [OF f that] timed by (auto simp: window_ok_def)
  have len: "length (windows p) = length sl" using f by (rule follows_length)
  have step: "\<exists>n>0. fst (windows p ! Suc i) = fst (windows p ! i) + spb / real n"
    if "Suc i < length (windows p)" for i
  proof -
    from that len have i: "i < length sl" and si: "Suc i < length sl" by simp_all
    from follows_nth [OF f i]
    have a: "fst (windows p ! i) = now + 0.2 + sum_list (take i (map fst sl))" by blast
    from follows_nth [OF f si]
    have b: "fst (windows p ! Suc i) = now + 0.2 + sum_list (take (Suc i) (map fst sl))"
      by blast
    from i have "take (Suc i) (map fst sl) = take i (map fst sl) @ [fst (sl ! i)]"
      by (simp add: take_Suc_conv_app_nth)
    with a b have c: "fst (windows p ! Suc i) = fst (windows p ! i) + fst (sl ! i)" by simp
    from i have "sl ! i \<in> set (song_slots spb song)" unfolding sl_def by simp
    from song_slots_fraction [OF this] c show ?thesis by auto
  qed
  have voc: "\<forall>x \<in> set (vocals p). now + 0.2 \<le> call_time x"
    using p assms(1) by (auto simp: playSongDemo_def Let_def bind_eq_Some_conv split: if_splits)
  have dur: "0 \<le> duration p"
    unfolding d sl_def by (rule sum_list_nonneg_slots [OF spb])
  from p srt lo ev step voc dur show ?thesis
    unfolding spb_def by blast
qed

text \<open>The claim on a pop chorus at 120 BPM with the chord line \<open>C G\<close>.\<close>

theorem C7_witness:
  "\<exists>p. playSongDemo random_half 0 (song_of pop ''120'' CHORUS [''C G'']) False = Some p
     \<and> sorted (map fst (windows p))
     \<and> (\<forall>w \<in> set (windows p). \<forall>x \<in> set (snd w). fst w \<le> call_time x)
     \<and> 0 \<le> duration p"
proof -
  let ?song = "song_of pop ''120'' CHORUS [''C G'']"
  have t: "tempo ?song = ''120''" by (simp add: song_of_def)
  have b: "bpm_of_tempo (tempo ?song) = Some 120" unfolding t by code_simp
  have r: "\<forall>i. 0 \<le> random_half i \<and> random_half i < 1" by (simp add: random_half_def)
  from C7_cursor_monotone [OF b _ r, of 0 False] show ?thesis by simp blast
qed

end
